theory Spec2Isabelle
  imports Complex_Main
begin

text \<open>
  A shallow embedding of the CUDA kernels of the course notebooks: the warp-shuffle
  minimum reduction and the two-phase brute-force nearest-neighbour search of
  \<^verbatim>\<open>Labs/pygpu-extra-end2end.ipynb\<close>, and the naive and tiled matrix products of
  \<^verbatim>\<open>Labs/Lab6-Writing_CUDA_Kernels.ipynb\<close>.

  A kernel is modelled thread by thread.  Every thread of the launch runs the body of the
  kernel and yields the list of global-memory stores it performs; the launch applies the
  stores of all threads to the device memory.  The kernels never read a buffer they write,
  so stores can be collected before they are applied.  Memory accesses that CUDA leaves
  unchecked (a store or load outside an array), a warp shuffle executed by only part of a
  warp and a block barrier reached by only part of a block are faults of the model.

  Single-precision values are idealised as reals: comparisons are those of a linear order
  and rounding is not modelled.  Array indices are natural numbers.
\<close>

section \<open>Launch geometry\<close>

text \<open>
  \<^verbatim>\<open>kernel[bpg, tpb]\<close> launches a two-dimensional grid of two-dimensional blocks;
  \<^verbatim>\<open>cuda.grid(2)\<close> and \<^verbatim>\<open>cuda.gridsize(2)\<close> are the absolute position of a thread and
  the extent of the whole grid.  A warp is 32 consecutive threads of a block in the linear
  order \<open>threadIdx.x + threadIdx.y * blockDim.x\<close>.
\<close>

record launch_cfg =
  gridDim_x :: nat
  gridDim_y :: nat
  blockDim_x :: nat
  blockDim_y :: nat

record thread =
  blockIdx_x :: nat
  blockIdx_y :: nat
  threadIdx_x :: nat
  threadIdx_y :: nat

text \<open>
  Numba compiles kernels without bounds checks and CUDA does not define a shuffle or a
  barrier that only part of the participating threads execute.  The model stops with a
  fault in these cases.  \<open>LaunchFailure\<close> is the error of a launch whose grid or block has
  an extent of zero, which the CUDA driver rejects (\<open>CUDA_ERROR_INVALID_VALUE\<close>);
  \<open>ZeroDivisionError\<close> is Python's, raised by a host cell.  The resource limits of a
  device (threads per block, grid extents, memory) are not modelled.
\<close>

datatype fault =
  OutOfBounds | DivergentShuffle | BarrierDivergence | LaunchFailure | ZeroDivisionError

text \<open>
  Device arrays carry their shape and their contents, a function of the index.  The
  coordinate arrays of shape \<open>(n, 2)\<close> are lists of (latitude, longitude) pairs.
\<close>

record 'a array1 =
  len :: nat
  elem :: "nat \<Rightarrow> 'a"

record 'a array2 =
  shape0 :: nat
  shape1 :: nat
  cell :: "nat \<times> nat \<Rightarrow> 'a"

type_synonym coords = "(real \<times> real) list"

definition grid_x :: "launch_cfg \<Rightarrow> thread \<Rightarrow> nat" where
  "grid_x cfg t = threadIdx_x t + blockIdx_x t * blockDim_x cfg"

definition grid_y :: "launch_cfg \<Rightarrow> thread \<Rightarrow> nat" where
  "grid_y cfg t = threadIdx_y t + blockIdx_y t * blockDim_y cfg"

definition gridsize_x :: "launch_cfg \<Rightarrow> nat" where
  "gridsize_x cfg = blockDim_x cfg * gridDim_x cfg"

definition gridsize_y :: "launch_cfg \<Rightarrow> nat" where
  "gridsize_y cfg = blockDim_y cfg * gridDim_y cfg"

definition linear_tid :: "launch_cfg \<Rightarrow> thread \<Rightarrow> nat" where
  "linear_tid cfg t = threadIdx_x t + threadIdx_y t * blockDim_x cfg"

definition laneid :: "launch_cfg \<Rightarrow> thread \<Rightarrow> nat" where
  "laneid cfg t = linear_tid cfg t mod 32"

definition warpid :: "launch_cfg \<Rightarrow> thread \<Rightarrow> nat" where
  "warpid cfg t = linear_tid cfg t div 32"

definition block_threads :: "launch_cfg \<Rightarrow> nat \<Rightarrow> nat \<Rightarrow> thread list" where
  "block_threads cfg bx by =
     concat (map (\<lambda>ty. map (\<lambda>tx. \<lparr>blockIdx_x = bx, blockIdx_y = by,
                                    threadIdx_x = tx, threadIdx_y = ty\<rparr>)
                            [0..<blockDim_x cfg])
                 [0..<blockDim_y cfg])"

definition threads :: "launch_cfg \<Rightarrow> thread list" where
  "threads cfg =
     concat (map (\<lambda>by. concat (map (\<lambda>bx. block_threads cfg bx by) [0..<gridDim_x cfg]))
                 [0..<gridDim_y cfg])"

definition valid_launch :: "launch_cfg \<Rightarrow> bool" where
  "valid_launch cfg =
     (0 < gridDim_x cfg \<and> 0 < gridDim_y cfg \<and> 0 < blockDim_x cfg \<and> 0 < blockDim_y cfg)"

text \<open>
  \<open>range(start, stop, step)\<close> for a positive step, as the grid-stride iteration uses it.
\<close>

definition py_range :: "nat \<Rightarrow> nat \<Rightarrow> nat \<Rightarrow> nat list" where
  "py_range start stop step =
     map (\<lambda>k. start + k * step) [0..<(stop - start + (step - 1)) div step]"

text \<open>
  \<open>collect\<close> gathers the stores of several threads (or loop iterations) and stops at the
  first fault; \<open>write_all\<close> applies stores in order, a later store to a cell overwriting
  an earlier one.
\<close>

fun collect :: "(fault + 'a list) list \<Rightarrow> fault + 'a list" where
  "collect [] = Inr []"
| "collect (r # rs) =
     (case r of
        Inl e \<Rightarrow> Inl e
      | Inr ws \<Rightarrow> (case collect rs of Inl e \<Rightarrow> Inl e | Inr ws' \<Rightarrow> Inr (ws @ ws')))"

text \<open>
  \<open>collect_traced\<close> does the same for iterations that also report what they did before
  their stores: the reports are put one after the other, in the order of the iterations.
\<close>

fun collect_traced :: "(fault + 'e list \<times> 'a list) list \<Rightarrow> fault + 'e list \<times> 'a list" where
  "collect_traced [] = Inr ([], [])"
| "collect_traced (r # rs) =
     (case r of
        Inl e \<Rightarrow> Inl e
      | Inr (es, ws) \<Rightarrow>
          (case collect_traced rs of
             Inl e \<Rightarrow> Inl e
           | Inr (es', ws') \<Rightarrow> Inr (es @ es', ws @ ws')))"

definition write_all :: "('k \<times> 'v) list \<Rightarrow> ('k \<Rightarrow> 'v) \<Rightarrow> 'k \<Rightarrow> 'v" where
  "write_all ws m = fold (\<lambda>(k, v) m'. m'(k := v)) ws m"

section \<open>Warp-level reduction\<close>

text \<open>
  A warp-wide register is a function of the lane.  \<open>cuda.shfl_down_sync(mask, var, delta)\<close>
  with the full mask gives lane \<open>l\<close> the value of lane \<open>l + delta\<close>, and its own value
  when there is no such lane.  \<open>min_step\<close> is one of the five exchange-and-compare steps
  of \<open>_warp_min_reduce_idx_unrolled\<close>, run by all 32 lanes.
\<close>

definition shfl_down_sync :: "(nat \<Rightarrow> 'v) \<Rightarrow> nat \<Rightarrow> nat \<Rightarrow> 'v" where
  "shfl_down_sync var delta lane = (if lane + delta < 32 then var (lane + delta) else var lane)"

definition min_step :: "nat \<Rightarrow> (nat \<Rightarrow> 'a::linorder \<times> 'b) \<Rightarrow> nat \<Rightarrow> 'a \<times> 'b" where
  "min_step delta r lane =
     (let val = fst (r lane); idx = snd (r lane);
          shfl_val = shfl_down_sync (\<lambda>l. fst (r l)) delta lane;
          shfl_idx = shfl_down_sync (\<lambda>l. snd (r l)) delta lane
      in if val > shfl_val then (shfl_val, shfl_idx) else (val, idx))"

definition warp_min_reduce_idx_unrolled :: "(nat \<Rightarrow> 'a::linorder \<times> 'b) \<Rightarrow> nat \<Rightarrow> 'a \<times> 'b" where
  "warp_min_reduce_idx_unrolled r =
     min_step 1 (min_step 2 (min_step 4 (min_step 8 (min_step 16 r))))"

section \<open>Nearest-neighbour kernels\<close>

text \<open>
  The device buffers of one call of the driver.
\<close>

record nn_mem =
  d_ref :: coords
  d_obs :: coords
  d_block_idx :: "nat array2"
  d_block_dist :: "real array2"
  d_out_dist :: "real array1"
  d_out_idx :: "nat array1"

text \<open>
  The distance of the inner loop of \<open>_block_get_nearest_brute\<close>, with \<open>c2\<close> the
  observation \<open>coord2[i]\<close> and \<open>c1\<close> the reference point \<open>coord1[j]\<close>, and the two seeds
  \<open>float32(1e11)\<close> (Phase 1) and \<open>float32(1e30)\<close> (Phase 2).
\<close>

definition haversine :: "real \<times> real \<Rightarrow> real \<times> real \<Rightarrow> real" where
  "haversine c2 c1 =
     (let first_sin = sin ((fst c2 - fst c1) * 0.5);
          second_sin = sin ((snd c2 - snd c1) * 0.5)
      in 2 * arcsin (sqrt (first_sin * first_sin
                           + cos (fst c1) * cos (fst c2) * second_sin * second_sin)))"

definition block_seed :: real where
  "block_seed = 10 ^ 11"

definition global_seed :: real where
  "global_seed = 10 ^ 30"

text \<open>
  The inner grid-stride loop of Phase 1: the running minimum of one thread over the
  reference points \<open>startx, startx + stridex, ...\<close>.
\<close>

definition nearest_in_slice :: "coords \<Rightarrow> real \<times> real \<Rightarrow> nat \<Rightarrow> nat \<Rightarrow> real \<times> nat" where
  "nearest_in_slice coord1 c2 startx stridex =
     foldl (\<lambda>(b_min_val, b_min_idx) j.
              let local_val = haversine c2 (coord1 ! j)
              in if local_val < b_min_val then (local_val, j) else (b_min_val, b_min_idx))
           (block_seed, 0) (py_range startx (length coord1) stridex)"

text \<open>
  \<open>warp_lane cfg t l\<close> is the thread holding lane \<open>l\<close> of the warp of \<open>t\<close>.  The shuffles
  sit inside the outer loop over the observations, so the warp of \<open>t\<close> can run its
  \<open>k\<close>-th reduction only if each of its 32 lanes exists and is in the \<open>k\<close>-th iteration
  of its own outer loop: \<open>warp_converged\<close>.
\<close>

definition warp_lane :: "launch_cfg \<Rightarrow> thread \<Rightarrow> nat \<Rightarrow> thread" where
  "warp_lane cfg t l =
     t\<lparr>threadIdx_x := (32 * warpid cfg t + l) mod blockDim_x cfg,
       threadIdx_y := (32 * warpid cfg t + l) div blockDim_x cfg\<rparr>"

definition warp_converged :: "launch_cfg \<Rightarrow> thread \<Rightarrow> nat \<Rightarrow> nat \<Rightarrow> bool" where
  "warp_converged cfg t n k =
     list_all (\<lambda>l. 32 * warpid cfg t + l < blockDim_x cfg * blockDim_y cfg
                  \<and> grid_y cfg (warp_lane cfg t l) + k * gridsize_y cfg < n) [0..<32]"

definition in_bounds :: "'a array2 \<Rightarrow> nat \<times> nat \<Rightarrow> bool" where
  "in_bounds a p = (fst p < shape0 a \<and> snd p < shape1 a)"

text \<open>
  Phase 1, \<open>_block_get_nearest_brute\<close>: the \<open>k\<close>-th iteration of the outer loop of thread
  \<open>t\<close>, and the whole loop.  \<open>regs\<close> holds, lane by lane, what the threads of the warp
  found in their slices; after the reduction lane 0 stores its pair to column
  \<open>blockIdx.x\<close> of row \<open>i\<close>.  \<open>block_min_reduce\<close> is the launch of the kernel.
\<close>

definition block_row_step ::
    "launch_cfg \<Rightarrow> nn_mem \<Rightarrow> thread \<Rightarrow> nat \<Rightarrow> fault + ((nat \<times> nat) \<times> real \<times> nat) list" where
  "block_row_step cfg m t k =
     (let coord1 = d_ref m; coord2 = d_obs m;
          stridex = gridsize_x cfg; stridey = gridsize_y cfg;
          i = grid_y cfg t + k * stridey
      in if \<not> warp_converged cfg t (length coord2) k then Inl DivergentShuffle
         else
           let regs = (\<lambda>l. let u = warp_lane cfg t l
                           in nearest_in_slice coord1 (coord2 ! (grid_y cfg u + k * stridey))
                                (grid_x cfg u) stridex);
               b_min = warp_min_reduce_idx_unrolled regs (laneid cfg t)
           in if laneid cfg t = 0
              then (if in_bounds (d_block_dist m) (i, blockIdx_x t)
                        \<and> in_bounds (d_block_idx m) (i, blockIdx_x t)
                    then Inr [((i, blockIdx_x t), b_min)]
                    else Inl OutOfBounds)
              else Inr [])"

definition block_get_nearest_brute ::
    "launch_cfg \<Rightarrow> nn_mem \<Rightarrow> thread \<Rightarrow> fault + ((nat \<times> nat) \<times> real \<times> nat) list" where
  "block_get_nearest_brute cfg m t =
     collect (map (block_row_step cfg m t)
                  [0..<length (py_range (grid_y cfg t) (length (d_obs m)) (gridsize_y cfg))])"

definition block_min_reduce :: "launch_cfg \<Rightarrow> nn_mem \<Rightarrow> fault + nn_mem" where
  "block_min_reduce cfg m =
     (if \<not> valid_launch cfg then Inl LaunchFailure
      else case collect (map (block_get_nearest_brute cfg m) (threads cfg)) of
        Inl e \<Rightarrow> Inl e
      | Inr ws \<Rightarrow>
          Inr (m\<lparr>d_block_dist := (d_block_dist m)
                    \<lparr>cell := write_all (map (\<lambda>(p, v, ix). (p, v)) ws) (cell (d_block_dist m))\<rparr>,
                  d_block_idx := (d_block_idx m)
                    \<lparr>cell := write_all (map (\<lambda>(p, v, ix). (p, ix)) ws) (cell (d_block_idx m))\<rparr>\<rparr>))"

text \<open>
  Phase 2.  The inner loop of \<open>_global_get_nearest_brute\<close> runs \<open>j\<close> over
  \<open>range(startx, block_idx.shape[1], stridex)\<close> but indexes the row with
  \<open>cuda.threadIdx.x\<close> in every iteration: \<open>global_read_cols\<close> is the list of columns
  a thread reads for one row.
\<close>

definition global_read_cols :: "launch_cfg \<Rightarrow> nn_mem \<Rightarrow> thread \<Rightarrow> nat list" where
  "global_read_cols cfg m u =
     map (\<lambda>j. threadIdx_x u)
         (py_range (grid_x cfg u) (shape1 (d_block_idx m)) (gridsize_x cfg))"

text \<open>
  What a Phase 2 thread does between two stores: it loads cells of the two partial result
  arrays, then takes part in the warp reduction.
\<close>

datatype event = Load_block_dist "nat \<times> nat" | Load_block_idx "nat \<times> nat" | Warp_min_reduce

text \<open>
  The inner loop of one thread for row \<open>i\<close>, over the columns \<open>cols\<close>: each iteration
  loads \<open>block_dist[i, c]\<close> and, when that is below the running minimum, \<open>block_idx[i, c]\<close>.
  \<open>global_scan\<close> returns the loads made, in order, with the final pair.
\<close>

definition global_scan ::
    "nn_mem \<Rightarrow> nat \<Rightarrow> nat list \<Rightarrow> fault + event list \<times> real \<times> nat" where
  "global_scan m i cols =
     foldl (\<lambda>acc c.
              case acc of
                Inl e \<Rightarrow> Inl e
              | Inr (loads, g_min_dist, g_min_idx) \<Rightarrow>
                  if \<not> in_bounds (d_block_dist m) (i, c) then Inl OutOfBounds
                  else
                    let local_dist = cell (d_block_dist m) (i, c);
                        loads' = loads @ [Load_block_dist (i, c)]
                    in if local_dist < g_min_dist
                       then (if in_bounds (d_block_idx m) (i, c)
                             then Inr (loads' @ [Load_block_idx (i, c)],
                                       local_dist, cell (d_block_idx m) (i, c))
                             else Inl OutOfBounds)
                       else Inr (loads', g_min_dist, g_min_idx))
           (Inr ([], global_seed, 0)) cols"

text \<open>
  \<open>_global_get_nearest_brute\<close>: the \<open>k\<close>-th iteration of the outer loop of thread \<open>t\<close>
  (\<open>global_row_step\<close>), the whole loop, and the launch \<open>global_min_reduce\<close>.  An iteration
  runs the inner loop of each lane of the warp of \<open>t\<close>, the warp reduction over their
  results, and the store of lane 0.  It returns, before its stores, the events of thread
  \<open>t\<close> itself: the loads of its own inner loop, then the reduction.
  \<open>global_get_nearest_brute_traced\<close> is the whole loop with its events;
  \<open>global_get_nearest_brute\<close> returns the stores alone, and the launch applies them.
\<close>

definition global_row_step ::
    "launch_cfg \<Rightarrow> nn_mem \<Rightarrow> thread \<Rightarrow> nat
       \<Rightarrow> fault + event list \<times> (nat \<times> real \<times> nat) list" where
  "global_row_step cfg m t k =
     (let stridey = gridsize_y cfg;
          i = grid_y cfg t + k * stridey
      in if \<not> warp_converged cfg t (len (d_out_dist m)) k then Inl DivergentShuffle
         else
           case collect (map (\<lambda>l.
                  let u = warp_lane cfg t l
                  in map_sum id (\<lambda>p. [p])
                       (global_scan m (grid_y cfg u + k * stridey)
                          (global_read_cols cfg m u)))
                [0..<32]) of
             Inl e \<Rightarrow> Inl e
           | Inr ps \<Rightarrow>
               let events = fst (ps ! laneid cfg t) @ [Warp_min_reduce];
                   g_min = warp_min_reduce_idx_unrolled (\<lambda>l. snd (ps ! l)) (laneid cfg t)
               in if laneid cfg t = 0
                  then (if i < len (d_out_dist m) \<and> i < len (d_out_idx m)
                        then Inr (events, [(i, g_min)])
                        else Inl OutOfBounds)
                  else Inr (events, []))"

definition global_get_nearest_brute_traced ::
    "launch_cfg \<Rightarrow> nn_mem \<Rightarrow> thread \<Rightarrow> fault + event list \<times> (nat \<times> real \<times> nat) list" where
  "global_get_nearest_brute_traced cfg m t =
     collect_traced (map (global_row_step cfg m t)
                  [0..<length (py_range (grid_y cfg t) (len (d_out_dist m)) (gridsize_y cfg))])"

definition global_get_nearest_brute ::
    "launch_cfg \<Rightarrow> nn_mem \<Rightarrow> thread \<Rightarrow> fault + (nat \<times> real \<times> nat) list" where
  "global_get_nearest_brute cfg m t = map_sum id snd (global_get_nearest_brute_traced cfg m t)"

definition global_min_reduce :: "launch_cfg \<Rightarrow> nn_mem \<Rightarrow> fault + nn_mem" where
  "global_min_reduce cfg m =
     (if \<not> valid_launch cfg then Inl LaunchFailure
      else case collect (map (global_get_nearest_brute cfg m) (threads cfg)) of
        Inl e \<Rightarrow> Inl e
      | Inr ws \<Rightarrow>
          Inr (m\<lparr>d_out_dist := (d_out_dist m)
                    \<lparr>elem := write_all (map (\<lambda>(i, v, ix). (i, v)) ws) (elem (d_out_dist m))\<rparr>,
                  d_out_idx := (d_out_idx m)
                    \<lparr>elem := write_all (map (\<lambda>(i, v, ix). (i, ix)) ws) (elem (d_out_idx m))\<rparr>\<rparr>))"

text \<open>
  The driver.  \<open>cuda.device_array\<close> does not initialise what it allocates: \<open>junk\<close> is what
  the four buffers hold before the first launch.  \<open>numba_cuda_solve\<close> fixes the two launch
  configurations; \<open>numba_cuda_solve_with\<close> is the same code with the configurations as
  arguments.  The result is the list of host calls made, in order, and the returned pair
  of arrays (indices, distances).
\<close>

record junk =
  junk_out_idx :: "nat \<Rightarrow> nat"
  junk_out_dist :: "nat \<Rightarrow> real"
  junk_block_idx :: "nat \<times> nat \<Rightarrow> nat"
  junk_block_dist :: "nat \<times> nat \<Rightarrow> real"

datatype kernel = Block_min_reduce | Global_min_reduce | Matmul | Fast_matmul

datatype host_call =
    Device_array string
  | Launch kernel launch_cfg
  | Synchronize

definition to_list :: "'a array1 \<Rightarrow> 'a list" where
  "to_list a = map (elem a) [0..<len a]"

definition numba_cuda_solve_with ::
    "launch_cfg \<Rightarrow> launch_cfg \<Rightarrow> junk \<Rightarrow> coords \<Rightarrow> coords
       \<Rightarrow> host_call list \<times> (fault + nat list \<times> real list)" where
  "numba_cuda_solve_with bpg_tpb1 bpg_tpb2 u obs ref =
     (let n = length obs;
          m0 = \<lparr>d_ref = ref, d_obs = obs,
                d_block_idx = \<lparr>shape0 = n, shape1 = 32, cell = junk_block_idx u\<rparr>,
                d_block_dist = \<lparr>shape0 = n, shape1 = 32, cell = junk_block_dist u\<rparr>,
                d_out_dist = \<lparr>len = n, elem = junk_out_dist u\<rparr>,
                d_out_idx = \<lparr>len = n, elem = junk_out_idx u\<rparr>\<rparr>;
          calls = [Device_array ''d_out_idx'', Device_array ''d_out_dist'',
                   Device_array ''d_block_idx'', Device_array ''d_block_dist'',
                   Launch Block_min_reduce bpg_tpb1, Launch Global_min_reduce bpg_tpb2,
                   Synchronize]
      in (calls,
          case block_min_reduce bpg_tpb1 m0 of
            Inl e \<Rightarrow> Inl e
          | Inr m1 \<Rightarrow>
              (case global_min_reduce bpg_tpb2 m1 of
                 Inl e \<Rightarrow> Inl e
               | Inr m2 \<Rightarrow> Inr (to_list (d_out_idx m2), to_list (d_out_dist m2)))))"

definition phase1_cfg :: launch_cfg where
  "phase1_cfg = \<lparr>gridDim_x = 32, gridDim_y = 128, blockDim_x = 32, blockDim_y = 16\<rparr>"

definition phase2_cfg :: launch_cfg where
  "phase2_cfg = \<lparr>gridDim_x = 1, gridDim_y = 128 * 20, blockDim_x = 32, blockDim_y = 16\<rparr>"

definition numba_cuda_solve ::
    "junk \<Rightarrow> coords \<Rightarrow> coords \<Rightarrow> host_call list \<times> (fault + nat list \<times> real list)" where
  "numba_cuda_solve = numba_cuda_solve_with phase1_cfg phase2_cfg"

section \<open>Characterisations\<close>

text \<open>
  Closed forms used in the proofs: the comparison \<open>keep_min\<close> of one shuffle step and
  the order in which lane 0 meets the 32 lanes; the launch configurations that keep the
  warp layout of \<open>numba_cuda_solve\<close>; the pair stored to a cell of the partial results
  (\<open>block_winner\<close>), the memory after each phase, and the final pair of an observation
  (\<open>nn_winner\<close>).
\<close>

definition keep_min :: "'a::linorder \<times> 'b \<Rightarrow> 'a \<times> 'b \<Rightarrow> 'a \<times> 'b" where
  "keep_min p q = (if fst p > fst q then q else p)"

definition lane_order :: "nat list" where
  "lane_order = [0, 16, 8, 24, 4, 20, 12, 28, 2, 18, 10, 26, 6, 22, 14, 30,
                 1, 17, 9, 25, 5, 21, 13, 29, 3, 19, 11, 27, 7, 23, 15, 31]"

definition phase1_family :: "launch_cfg \<Rightarrow> bool" where
  "phase1_family cfg =
     (gridDim_x cfg = 32 \<and> blockDim_x cfg = 32 \<and> 0 < gridDim_y cfg \<and> 0 < blockDim_y cfg)"

definition phase2_family :: "launch_cfg \<Rightarrow> bool" where
  "phase2_family cfg =
     (gridDim_x cfg = 1 \<and> blockDim_x cfg = 32 \<and> 0 < gridDim_y cfg \<and> 0 < blockDim_y cfg)"

definition block_winner :: "coords \<Rightarrow> coords \<Rightarrow> nat \<times> nat \<Rightarrow> real \<times> nat" where
  "block_winner ref obs p =
     warp_min_reduce_idx_unrolled
       (\<lambda>l. nearest_in_slice ref (obs ! fst p) (l + snd p * 32) 1024) 0"

definition block_writes :: "launch_cfg \<Rightarrow> nn_mem \<Rightarrow> thread \<Rightarrow> ((nat \<times> nat) \<times> real \<times> nat) list" where
  "block_writes cfg m t =
     (if threadIdx_x t = 0
      then map (\<lambda>i. ((i, blockIdx_x t), block_winner (d_ref m) (d_obs m) (i, blockIdx_x t)))
               (py_range (grid_y cfg t) (length (d_obs m)) (gridsize_y cfg))
      else [])"

definition after_phase1 :: "nn_mem \<Rightarrow> nn_mem" where
  "after_phase1 m =
     m\<lparr>d_block_dist := (d_block_dist m)
          \<lparr>cell := (\<lambda>p. if fst p < length (d_obs m) \<and> snd p < 32
                        then fst (block_winner (d_ref m) (d_obs m) p)
                        else cell (d_block_dist m) p)\<rparr>,
       d_block_idx := (d_block_idx m)
          \<lparr>cell := (\<lambda>p. if fst p < length (d_obs m) \<and> snd p < 32
                        then snd (block_winner (d_ref m) (d_obs m) p)
                        else cell (d_block_idx m) p)\<rparr>\<rparr>"

definition global_candidate :: "nn_mem \<Rightarrow> nat \<times> nat \<Rightarrow> real \<times> nat" where
  "global_candidate m p =
     (if cell (d_block_dist m) p < global_seed
      then (cell (d_block_dist m) p, cell (d_block_idx m) p)
      else (global_seed, 0))"

text \<open>
  \<open>candidate_loads m p\<close>: the loads of one inner iteration of Phase 2 at the cell \<open>p\<close>,
  the distance and, when it is below the seed of Phase 2, the index.
\<close>

definition candidate_loads :: "nn_mem \<Rightarrow> nat \<times> nat \<Rightarrow> event list" where
  "candidate_loads m p =
     Load_block_dist p # (if cell (d_block_dist m) p < global_seed then [Load_block_idx p] else [])"

definition global_winner :: "nn_mem \<Rightarrow> nat \<Rightarrow> real \<times> nat" where
  "global_winner m i = warp_min_reduce_idx_unrolled (\<lambda>l. global_candidate m (i, l)) 0"

definition after_phase2 :: "nn_mem \<Rightarrow> nn_mem" where
  "after_phase2 m =
     m\<lparr>d_out_dist := (d_out_dist m)
          \<lparr>elem := (\<lambda>i. if i < len (d_out_dist m) then fst (global_winner m i)
                        else elem (d_out_dist m) i)\<rparr>,
       d_out_idx := (d_out_idx m)
          \<lparr>elem := (\<lambda>i. if i < len (d_out_dist m) then snd (global_winner m i)
                        else elem (d_out_idx m) i)\<rparr>\<rparr>"

definition global_writes :: "launch_cfg \<Rightarrow> nn_mem \<Rightarrow> thread \<Rightarrow> (nat \<times> real \<times> nat) list" where
  "global_writes cfg m t =
     (if threadIdx_x t = 0
      then map (\<lambda>i. (i, global_winner m i))
               (py_range (grid_y cfg t) (len (d_out_dist m)) (gridsize_y cfg))
      else [])"

definition nn_winner :: "coords \<Rightarrow> coords \<Rightarrow> nat \<Rightarrow> real \<times> nat" where
  "nn_winner ref obs i =
     warp_min_reduce_idx_unrolled
       (\<lambda>l. let b = block_winner ref obs (i, l)
            in if fst b < global_seed then b else (global_seed, 0)) 0"

text \<open>
  \<open>nearest_of h S p\<close>: the pair \<open>p\<close> is what a scan of the candidates \<open>S\<close> with distances
  \<open>h\<close> may end with: its value is below every candidate's distance, and it is either the
  untouched seed or one of the candidates together with its distance.
\<close>

definition nearest_of :: "(nat \<Rightarrow> real) \<Rightarrow> nat set \<Rightarrow> real \<times> nat \<Rightarrow> bool" where
  "nearest_of h S p =
     ((\<forall>k\<in>S. fst p \<le> h k) \<and> (p = (block_seed, 0) \<or> (snd p \<in> S \<and> fst p = h (snd p))))"

text \<open>The lane number with its five bits in reverse order.\<close>

definition bitrev5 :: "nat \<Rightarrow> nat" where
  "bitrev5 l = (l mod 2) * 16 + (l div 2 mod 2) * 8 + (l div 4 mod 2) * 4
               + (l div 8 mod 2) * 2 + (l div 16 mod 2)"

text \<open>Concrete inputs.\<close>

definition tie_warp :: "nat \<Rightarrow> real \<times> nat" where
  "tie_warp l = (if l = 8 \<or> l = 16 then 1 else 5, 100 + l)"

definition one_obs :: coords where
  "one_obs = [(0, 0)]"

definition zero_junk :: junk where
  "zero_junk = \<lparr>junk_out_idx = (\<lambda>i. 0), junk_out_dist = (\<lambda>i. 0),
                 junk_block_idx = (\<lambda>p. 0), junk_block_dist = (\<lambda>p. 0)\<rparr>"

definition alt_phase2_cfg :: launch_cfg where
  "alt_phase2_cfg = \<lparr>gridDim_x = 1, gridDim_y = 1, blockDim_x = 16, blockDim_y = 2\<rparr>"

definition two_obs :: coords where
  "two_obs = [(0, pi), (0, 0)]"

definition one_ref :: coords where
  "one_ref = [(0, 0)]"

definition cex_junk :: junk where
  "cex_junk = \<lparr>junk_out_idx = (\<lambda>i. 9), junk_out_dist = (\<lambda>i. 7),
                junk_block_idx = (\<lambda>p. 0), junk_block_dist = (\<lambda>p. 0)\<rparr>"

definition cex_mem0 :: nn_mem where
  "cex_mem0 = \<lparr>d_ref = one_ref, d_obs = two_obs,
                d_block_idx = \<lparr>shape0 = 2, shape1 = 32, cell = junk_block_idx cex_junk\<rparr>,
                d_block_dist = \<lparr>shape0 = 2, shape1 = 32, cell = junk_block_dist cex_junk\<rparr>,
                d_out_dist = \<lparr>len = 2, elem = junk_out_dist cex_junk\<rparr>,
                d_out_idx = \<lparr>len = 2, elem = junk_out_idx cex_junk\<rparr>\<rparr>"

definition cex_mem1 :: nn_mem where
  "cex_mem1 = \<lparr>d_ref = one_ref, d_obs = two_obs,
                d_block_idx = \<lparr>shape0 = 2, shape1 = 32, cell = (\<lambda>p. 0)\<rparr>,
                d_block_dist = \<lparr>shape0 = 2, shape1 = 32,
                   cell = (\<lambda>p. if fst p < 2 \<and> snd p < 32
                               then (if snd p = 0 then (if fst p = 0 then pi else 0) else 10 ^ 11)
                               else 0)\<rparr>,
                d_out_dist = \<lparr>len = 2, elem = (\<lambda>i. 7)\<rparr>,
                d_out_idx = \<lparr>len = 2, elem = (\<lambda>i. 9)\<rparr>\<rparr>"

definition cex_mem2 :: nn_mem where
  "cex_mem2 = cex_mem1\<lparr>d_out_dist := \<lparr>len = 2, elem = (\<lambda>i. if i = 0 then 0 else 7)\<rparr>,
                        d_out_idx := \<lparr>len = 2, elem = (\<lambda>i. if i = 0 then 0 else 9)\<rparr>\<rparr>"

definition small_phase1_cfg :: launch_cfg where
  "small_phase1_cfg = \<lparr>gridDim_x = 32, gridDim_y = 1, blockDim_x = 32, blockDim_y = 1\<rparr>"

definition small_phase2_cfg :: launch_cfg where
  "small_phase2_cfg = \<lparr>gridDim_x = 1, gridDim_y = 1, blockDim_x = 32, blockDim_y = 1\<rparr>"

text \<open>
  Grid-stride coverage: every row index below \<open>n_rows\<close> is visited by the outer loop of
  some thread of the launch, and every column index below \<open>n_cols\<close> by the inner loop of
  some thread.
\<close>

definition grid_stride_covers :: "launch_cfg \<Rightarrow> nat \<Rightarrow> nat \<Rightarrow> bool" where
  "grid_stride_covers cfg n_rows n_cols =
     (list_all (\<lambda>i. list_ex (\<lambda>t. i \<in> set (py_range (grid_y cfg t) n_rows (gridsize_y cfg)))
                             (threads cfg)) [0..<n_rows]
      \<and> list_all (\<lambda>j. list_ex (\<lambda>t. j \<in> set (py_range (grid_x cfg t) n_cols (gridsize_x cfg)))
                               (threads cfg)) [0..<n_cols])"

text \<open>
  The host calls of the driver, in program order.  \<open>calls_between a b\<close> are the calls made
  after the first call satisfying \<open>a\<close> and before the next one satisfying \<open>b\<close>;
  \<open>calls_after a\<close> are all calls made after the first call satisfying \<open>a\<close>.
\<close>

definition is_launch :: "kernel \<Rightarrow> host_call \<Rightarrow> bool" where
  "is_launch k c = (case c of Launch k' cfg \<Rightarrow> k' = k | _ \<Rightarrow> False)"

definition calls_after :: "(host_call \<Rightarrow> bool) \<Rightarrow> host_call list \<Rightarrow> host_call list" where
  "calls_after a cs = drop 1 (dropWhile (\<lambda>c. \<not> a c) cs)"

definition calls_between ::
    "(host_call \<Rightarrow> bool) \<Rightarrow> (host_call \<Rightarrow> bool) \<Rightarrow> host_call list \<Rightarrow> host_call list" where
  "calls_between a b cs = takeWhile (\<lambda>c. \<not> b c) (calls_after a cs)"

definition one_ref_mem :: nn_mem where
  "one_ref_mem = \<lparr>d_ref = one_ref, d_obs = one_obs,
                   d_block_idx = \<lparr>shape0 = 1, shape1 = 32, cell = (\<lambda>p. 0)\<rparr>,
                   d_block_dist = \<lparr>shape0 = 1, shape1 = 32, cell = (\<lambda>p. 0)\<rparr>,
                   d_out_dist = \<lparr>len = 1, elem = (\<lambda>i. 0)\<rparr>,
                   d_out_idx = \<lparr>len = 1, elem = (\<lambda>i. 0)\<rparr>\<rparr>"

section \<open>Matrix multiplication\<close>

text \<open>
  Matrices are two-dimensional arrays over any type with a zero, an addition and a
  multiplication; no law of arithmetic is assumed of them, so that what is proved holds
  for floating-point elements as well, where addition is not associative.  \<open>TPB\<close>, the
  tile width, is a global constant of the notebook (16); it is a parameter here.
\<close>

definition zeros :: "nat \<Rightarrow> nat \<Rightarrow> ('a::zero) array2" where
  "zeros r c = \<lparr>shape0 = r, shape1 = c, cell = (\<lambda>p. 0)\<rparr>"

definition ceil_div :: "nat \<Rightarrow> nat \<Rightarrow> nat" where
  "ceil_div a b = (a + (b - 1)) div b"

text \<open>
  The kernel \<open>matmul\<close>: one thread per element of \<open>C\<close>; \<open>dot_loop\<close> is its loop over
  \<open>k\<close>.
\<close>

definition dot_loop ::
    "('a::{zero,plus,times}) array2 \<Rightarrow> 'a array2 \<Rightarrow> nat \<Rightarrow> nat \<Rightarrow> fault + 'a" where
  "dot_loop A B row col =
     foldl (\<lambda>acc k.
              case acc of
                Inl e \<Rightarrow> Inl e
              | Inr tmp \<Rightarrow>
                  if in_bounds A (row, k) \<and> in_bounds B (k, col)
                  then Inr (tmp + cell A (row, k) * cell B (k, col))
                  else Inl OutOfBounds)
           (Inr 0) [0..<shape1 A]"

definition matmul ::
    "launch_cfg \<Rightarrow> ('a::{zero,plus,times}) array2 \<Rightarrow> 'a array2 \<Rightarrow> 'a array2 \<Rightarrow> thread
       \<Rightarrow> fault + ((nat \<times> nat) \<times> 'a) list" where
  "matmul cfg A B C t =
     (let row = grid_x cfg t; col = grid_y cfg t
      in if row < shape0 C \<and> col < shape1 C
         then (case dot_loop A B row col of
                 Inl e \<Rightarrow> Inl e
               | Inr tmp \<Rightarrow> Inr [((row, col), tmp)])
         else Inr [])"

definition matmul_kernel ::
    "launch_cfg \<Rightarrow> ('a::{zero,plus,times}) array2 \<Rightarrow> 'a array2 \<Rightarrow> 'a array2
       \<Rightarrow> fault + 'a array2" where
  "matmul_kernel cfg A B C =
     (if \<not> valid_launch cfg then Inl LaunchFailure
      else case collect (map (matmul cfg A B C) (threads cfg)) of
        Inl e \<Rightarrow> Inl e
      | Inr ws \<Rightarrow> Inr (C\<lparr>cell := write_all ws (cell C)\<rparr>))"

text \<open>
  The launch cell of the naive kernel: allocate \<open>C\<close>, choose \<open>ceil(rows / TPB)\<close> by
  \<open>ceil(cols / TPB)\<close> blocks of \<open>TPB\<close> by \<open>TPB\<close> threads, launch, synchronize.  The cell
  compares no dimensions of \<open>A\<close> and \<open>B\<close>.
\<close>

definition matmul_cfg :: "nat \<Rightarrow> 'a array2 \<Rightarrow> 'b array2 \<Rightarrow> launch_cfg" where
  "matmul_cfg TPB A B =
     \<lparr>gridDim_x = ceil_div (shape0 A) TPB, gridDim_y = ceil_div (shape1 B) TPB,
      blockDim_x = TPB, blockDim_y = TPB\<rparr>"

definition matmul_launch ::
    "nat \<Rightarrow> ('a::{zero,plus,times}) array2 \<Rightarrow> 'a array2
       \<Rightarrow> host_call list \<times> (fault + 'a array2)" where
  "matmul_launch TPB A B =
     (if TPB = 0 then ([], Inl ZeroDivisionError)
      else
        let C = zeros (shape0 A) (shape1 B);
            cfg = matmul_cfg TPB A B
        in ([Launch Matmul cfg, Synchronize], matmul_kernel cfg A B C))"

subsection \<open>The tiled kernel\<close>

text \<open>
  The steps of one thread of \<open>fast_matmul\<close>, in program order: a thread whose position is
  outside both bounds of \<open>C\<close> returns at once; any other thread runs, for every chunk of
  the reduction dimension, its two shared-memory stores, a barrier, its \<open>TPB\<close>
  multiply-adds and a second barrier, and finally stores its element of \<open>C\<close>.
\<close>

datatype tstep = Preload nat | Syncthreads | Partial_product nat | Store_C

definition exits_early :: "launch_cfg \<Rightarrow> 'a array2 \<Rightarrow> thread \<Rightarrow> bool" where
  "exits_early cfg C t = (grid_x cfg t \<ge> shape0 C \<and> grid_y cfg t \<ge> shape1 C)"

definition fast_matmul_steps ::
    "nat \<Rightarrow> launch_cfg \<Rightarrow> 'a array2 \<Rightarrow> 'b array2 \<Rightarrow> thread \<Rightarrow> tstep list" where
  "fast_matmul_steps TPB cfg A C t =
     (if exits_early cfg C t then []
      else concat (map (\<lambda>i. [Preload i, Syncthreads, Partial_product i, Syncthreads])
                       [0..<shape1 A div TPB]) @ [Store_C])"

definition barriers_reached :: "tstep list \<Rightarrow> nat" where
  "barriers_reached steps = length (filter (\<lambda>s. s = Syncthreads) steps)"

text \<open>
  A block runs in lock step from barrier to barrier.  Its state is the two shared tiles
  and the accumulator \<open>tmp\<close> of each of its threads, kept under the thread's
  \<open>(threadIdx.x, threadIdx.y)\<close>.
\<close>

record 'a block_state =
  sA :: "nat \<times> nat \<Rightarrow> 'a"
  sB :: "nat \<times> nat \<Rightarrow> 'a"
  tmp :: "nat \<times> nat \<Rightarrow> 'a"

text \<open>
  One chunk: every live thread stores its element of each tile (\<open>preload\<close>); after the
  barrier every live thread adds the \<open>TPB\<close> products of its row of \<open>sA\<close> and its column
  of \<open>sB\<close> to its accumulator (\<open>partial_product\<close>).  After the last chunk a live thread
  stores its accumulator to \<open>C\<close>.  A block in which threads differ in the number of
  barriers they reach is a fault.
\<close>

definition preload ::
    "nat \<Rightarrow> launch_cfg \<Rightarrow> 'a array2 \<Rightarrow> 'a array2 \<Rightarrow> nat \<Rightarrow> thread
       \<Rightarrow> fault + ((nat \<times> nat) \<times> 'a \<times> 'a) list" where
  "preload TPB cfg A B i t =
     (let x = grid_x cfg t; y = grid_y cfg t;
          tx = threadIdx_x t; ty = threadIdx_y t
      in if tx < TPB \<and> ty < TPB
            \<and> in_bounds A (x, ty + i * TPB) \<and> in_bounds B (tx + i * TPB, y)
         then Inr [((tx, ty), cell A (x, ty + i * TPB), cell B (tx + i * TPB, y))]
         else Inl OutOfBounds)"

definition partial_product ::
    "nat \<Rightarrow> (nat \<times> nat \<Rightarrow> 'a::{plus,times}) \<Rightarrow> (nat \<times> nat \<Rightarrow> 'a) \<Rightarrow> (nat \<times> nat \<Rightarrow> 'a)
       \<Rightarrow> thread \<Rightarrow> (nat \<times> nat) \<times> 'a" where
  "partial_product TPB sA' sB' tmp' t =
     (let tx = threadIdx_x t; ty = threadIdx_y t
      in ((tx, ty), foldl (\<lambda>acc j. acc + sA' (tx, j) * sB' (j, ty)) (tmp' (tx, ty)) [0..<TPB]))"

definition block_chunk ::
    "nat \<Rightarrow> launch_cfg \<Rightarrow> ('a::{plus,times}) array2 \<Rightarrow> 'a array2 \<Rightarrow> thread list \<Rightarrow> nat
       \<Rightarrow> 'a block_state \<Rightarrow> fault + 'a block_state" where
  "block_chunk TPB cfg A B live i st =
     (case collect (map (preload TPB cfg A B i) live) of
        Inl e \<Rightarrow> Inl e
      | Inr ls \<Rightarrow>
          let sA' = write_all (map (\<lambda>(p, a, b). (p, a)) ls) (sA st);
              sB' = write_all (map (\<lambda>(p, a, b). (p, b)) ls) (sB st)
          in Inr \<lparr>sA = sA', sB = sB',
                  tmp = write_all (map (partial_product TPB sA' sB' (tmp st)) live) (tmp st)\<rparr>)"

definition store_C ::
    "launch_cfg \<Rightarrow> 'a array2 \<Rightarrow> 'a block_state \<Rightarrow> thread \<Rightarrow> fault + ((nat \<times> nat) \<times> 'a) list" where
  "store_C cfg C st t =
     (let x = grid_x cfg t; y = grid_y cfg t
      in if in_bounds C (x, y)
         then Inr [((x, y), tmp st (threadIdx_x t, threadIdx_y t))]
         else Inl OutOfBounds)"

definition fast_matmul_block ::
    "nat \<Rightarrow> launch_cfg \<Rightarrow> ('a::{zero,plus,times}) array2 \<Rightarrow> 'a array2 \<Rightarrow> 'a array2
       \<Rightarrow> (nat \<times> nat \<Rightarrow> 'a) \<Rightarrow> nat \<times> nat \<Rightarrow> fault + ((nat \<times> nat) \<times> 'a) list" where
  "fast_matmul_block TPB cfg A B C uninit b =
     (let ts = block_threads cfg (fst b) (snd b);
          live = filter (\<lambda>t. \<not> exits_early cfg C t) ts
      in if list_ex (\<lambda>t. list_ex (\<lambda>t'. barriers_reached (fast_matmul_steps TPB cfg A C t)
                                        \<noteq> barriers_reached (fast_matmul_steps TPB cfg A C t')) ts) ts
         then Inl BarrierDivergence
         else
           case foldl (\<lambda>r i. case r of Inl e \<Rightarrow> Inl e
                                     | Inr st \<Rightarrow> block_chunk TPB cfg A B live i st)
                      (Inr \<lparr>sA = uninit, sB = uninit, tmp = (\<lambda>p. 0)\<rparr>)
                      [0..<shape1 A div TPB] of
             Inl e \<Rightarrow> Inl e
           | Inr st \<Rightarrow> collect (map (store_C cfg C st) live))"

definition blocks :: "launch_cfg \<Rightarrow> (nat \<times> nat) list" where
  "blocks cfg =
     concat (map (\<lambda>by. map (\<lambda>bx. (bx, by)) [0..<gridDim_x cfg]) [0..<gridDim_y cfg])"

definition fast_matmul ::
    "nat \<Rightarrow> launch_cfg \<Rightarrow> (nat \<times> nat \<Rightarrow> 'a) \<Rightarrow> ('a::{zero,plus,times}) array2 \<Rightarrow> 'a array2
       \<Rightarrow> 'a array2 \<Rightarrow> fault + 'a array2" where
  "fast_matmul TPB cfg uninit A B C =
     (if \<not> valid_launch cfg then Inl LaunchFailure
      else case collect (map (fast_matmul_block TPB cfg A B C uninit) (blocks cfg)) of
        Inl e \<Rightarrow> Inl e
      | Inr ws \<Rightarrow> Inr (C\<lparr>cell := write_all ws (cell C)\<rparr>))"

text \<open>
  The launch cell of the tiled kernel.  \<open>uninit\<close> is what the shared tiles hold before the
  first store.
\<close>

definition fast_matmul_launch ::
    "nat \<Rightarrow> (nat \<times> nat \<Rightarrow> 'a) \<Rightarrow> ('a::{zero,plus,times}) array2 \<Rightarrow> 'a array2
       \<Rightarrow> host_call list \<times> (fault + 'a array2)" where
  "fast_matmul_launch TPB uninit A B =
     (if TPB = 0 then ([], Inl ZeroDivisionError)
      else
        let C = zeros (shape0 A) (shape1 B);
            cfg = matmul_cfg TPB A B
        in ([Launch Fast_matmul cfg, Synchronize], fast_matmul TPB cfg uninit A B C))"

text \<open>The product as the naive kernel accumulates it: one pass over \<open>k\<close> in increasing order.\<close>

definition dot :: "('a::{zero,plus,times}) array2 \<Rightarrow> 'a array2 \<Rightarrow> nat \<Rightarrow> nat \<times> nat \<Rightarrow> 'a" where
  "dot A B n p =
     foldl (\<lambda>acc k. acc + cell A (fst p, k) * cell B (k, snd p)) 0 [0..<n]"

definition product :: "('a::{zero,plus,times}) array2 \<Rightarrow> 'a array2 \<Rightarrow> 'a array2" where
  "product A B =
     \<lparr>shape0 = shape0 A, shape1 = shape1 B,
      cell = (\<lambda>p. if fst p < shape0 A \<and> snd p < shape1 B then dot A B (shape1 A) p else 0)\<rparr>"

text \<open>
  What one chunk of the reduction dimension leaves in the state of block \<open>b\<close> when no
  thread of the block has returned: the two tiles hold the chunk of \<open>A\<close> and of \<open>B\<close>, and
  every accumulator has taken in the \<open>TPB\<close> products of the chunk, in increasing order.
\<close>

definition chunk_result ::
    "nat \<Rightarrow> ('a::{zero,plus,times}) array2 \<Rightarrow> 'a array2 \<Rightarrow> nat \<times> nat \<Rightarrow> nat
       \<Rightarrow> 'a block_state \<Rightarrow> 'a block_state" where
  "chunk_result TPB A B b i st =
     \<lparr>sA = (\<lambda>q. if fst q < TPB \<and> snd q < TPB
                 then cell A (fst q + fst b * TPB, snd q + i * TPB) else sA st q),
      sB = (\<lambda>q. if fst q < TPB \<and> snd q < TPB
                 then cell B (fst q + i * TPB, snd q + snd b * TPB) else sB st q),
      tmp = (\<lambda>q. if fst q < TPB \<and> snd q < TPB
                  then foldl (\<lambda>acc j. acc + cell A (fst q + fst b * TPB, j + i * TPB)
                                            * cell B (j + i * TPB, snd q + snd b * TPB))
                             (tmp st q) [0..<TPB]
                  else tmp st q)\<rparr>"

definition corner_A :: "real array2" where
  "corner_A = zeros 17 16"

definition corner_B :: "real array2" where
  "corner_B = zeros 16 17"

definition inside_thread :: thread where
  "inside_thread = \<lparr>blockIdx_x = 1, blockIdx_y = 1, threadIdx_x = 0, threadIdx_y = 0\<rparr>"

definition outside_thread :: thread where
  "outside_thread = \<lparr>blockIdx_x = 1, blockIdx_y = 1, threadIdx_x = 1, threadIdx_y = 1\<rparr>"

definition square_A :: "real array2" where
  "square_A = \<lparr>shape0 = 2, shape1 = 2, cell = (\<lambda>p. if fst p = snd p then 1 else 0)\<rparr>"

definition square_B :: "real array2" where
  "square_B = \<lparr>shape0 = 2, shape1 = 2, cell = (\<lambda>p. real (fst p) + 2 * real (snd p))\<rparr>"

definition narrow_A :: "real array2" where
  "narrow_A = \<lparr>shape0 = 1, shape1 = 1, cell = (\<lambda>p. 2)\<rparr>"

definition tall_B :: "real array2" where
  "tall_B = \<lparr>shape0 = 2, shape1 = 1, cell = (\<lambda>p. if fst p = 0 then 3 else 5)\<rparr>"

lemma py_range_bound: "0 < d \<Longrightarrow> (k < (a + (d - 1)) div d) = (k * d < (a::nat))"
proof -
  assume d: "0 < d"
  have "(k < (a + (d - 1)) div d) = (Suc k \<le> (a + (d - 1)) div d)" by auto
  also have "\<dots> = (Suc k * d \<le> a + (d - 1))" using d by (simp add: less_eq_div_iff_mult_less_eq)
  also have "\<dots> = (k * d < a)" using d by (cases d) auto
  finally show ?thesis .
qed

lemma length_py_range: "length (py_range s n d) = (n - s + (d - 1)) div d"
  by (simp add: py_range_def)

lemma nth_py_range: "k < length (py_range s n d) \<Longrightarrow> py_range s n d ! k = s + k * d"
  by (simp add: py_range_def)

lemma py_range_lt: "0 < d \<Longrightarrow> k < length (py_range s n d) \<Longrightarrow> s + k * d < n"
  unfolding length_py_range using py_range_bound[of d k "n - s"] by auto

lemma in_py_range: "0 < d \<Longrightarrow> i < n \<Longrightarrow> i \<in> set (py_range (i mod d) n d)"
proof -
  assume d: "0 < d" and i: "i < n"
  have "i mod d + i div d * d = i" by simp
  then have "i div d * d < n - i mod d" using i by linarith
  then have k: "i div d < (n - i mod d + (d - 1)) div d"
    using py_range_bound[OF d, of "i div d" "n - i mod d"] by blast
  have "i = i mod d + i div d * d" by simp
  then have "i \<in> (\<lambda>k. i mod d + k * d) ` {0..<(n - i mod d + (d - 1)) div d}"
    using k by (intro image_eqI[of _ _ "i div d"]) auto
  then show ?thesis unfolding py_range_def by simp
qed

lemma collect_all_Inr:
  "(\<And>x. x \<in> set xs \<Longrightarrow> f x = Inr (g x)) \<Longrightarrow> collect (map f xs) = Inr (concat (map g xs))"
  by (induction xs) auto

lemma write_all_determined:
  "(\<And>k v. (k, v) \<in> set ws \<Longrightarrow> v = F k) \<Longrightarrow>
     write_all ws m = (\<lambda>k. if k \<in> fst ` set ws then F k else m k)"
  unfolding write_all_def
proof (induction ws arbitrary: m)
  case Nil
  show ?case by simp
next
  case (Cons w ws)
  obtain k v where w: "w = (k, v)" by (cases w)
  have v: "v = F k" using Cons.prems[of k v] w by simp
  have ih: "fold (\<lambda>(k, v) m'. m'(k := v)) ws (m(k := v))
          = (\<lambda>k'. if k' \<in> fst ` set ws then F k' else (m(k := v)) k')"
    by (rule Cons.IH) (use Cons.prems in auto)
  have "fold (\<lambda>(k, v) m'. m'(k := v)) (w # ws) m = fold (\<lambda>(k, v) m'. m'(k := v)) ws (m(k := v))"
    unfolding w by simp
  also note ih
  also have "(\<lambda>k'. if k' \<in> fst ` set ws then F k' else (m(k := v)) k')
               = (\<lambda>k'. if k' \<in> fst ` set (w # ws) then F k' else m k')"
    using v w by (auto simp: fun_eq_iff)
  finally show ?case .
qed

lemma set_block_threads:
  "set (block_threads cfg bx by) = {t. blockIdx_x t = bx \<and> blockIdx_y t = by
                          \<and> threadIdx_x t < blockDim_x cfg \<and> threadIdx_y t < blockDim_y cfg}"
proof (intro set_eqI iffI)
  fix t :: thread assume "t \<in> set (block_threads cfg bx by)"
  then show "t \<in> {t. blockIdx_x t = bx \<and> blockIdx_y t = by
                          \<and> threadIdx_x t < blockDim_x cfg \<and> threadIdx_y t < blockDim_y cfg}"
    unfolding block_threads_def by auto
next
  fix t :: thread assume t: "t \<in> {t. blockIdx_x t = bx \<and> blockIdx_y t = by
                          \<and> threadIdx_x t < blockDim_x cfg \<and> threadIdx_y t < blockDim_y cfg}"
  have "t = \<lparr>blockIdx_x = bx, blockIdx_y = by,
             threadIdx_x = threadIdx_x t, threadIdx_y = threadIdx_y t\<rparr>"
    using t by simp
  then have "t \<in> (\<lambda>tx. \<lparr>blockIdx_x = bx, blockIdx_y = by,
             threadIdx_x = tx, threadIdx_y = threadIdx_y t\<rparr>) ` {0..<blockDim_x cfg}"
    using t by (intro image_eqI[of _ _ "threadIdx_x t"]) auto
  then show "t \<in> set (block_threads cfg bx by)"
    unfolding block_threads_def using t by auto
qed

lemma set_threads:
  "set (threads cfg) = {t. blockIdx_x t < gridDim_x cfg \<and> blockIdx_y t < gridDim_y cfg
                          \<and> threadIdx_x t < blockDim_x cfg \<and> threadIdx_y t < blockDim_y cfg}"
  unfolding threads_def by (auto simp: set_block_threads)

lemma min_step_keep: "l + d < 32 \<Longrightarrow> min_step d r l = keep_min (r l) (r (l + d))"
  by (simp add: min_step_def shfl_down_sync_def keep_min_def Let_def)

lemma keep_min_assoc: "keep_min (keep_min a b) c = keep_min a (keep_min b c)"
  by (auto simp: keep_min_def)

lemma lane0_tree:
  "warp_min_reduce_idx_unrolled r 0 = foldr keep_min (map r (butlast lane_order)) (r 31)"
  unfolding warp_min_reduce_idx_unrolled_def lane_order_def
  by (simp add: min_step_keep keep_min_assoc numeral_2_eq_2[symmetric] numeral_3_eq_3[symmetric])

lemma warp_reduce_cong:
  assumes "\<And>l. l < 32 \<Longrightarrow> r l = r' l"
  shows "warp_min_reduce_idx_unrolled r 0 = warp_min_reduce_idx_unrolled r' 0"
proof -
  have a: "map r (butlast lane_order) = map r' (butlast lane_order)"
    by (rule map_cong[OF refl]) (use assms in \<open>auto simp: lane_order_def\<close>)
  have b: "r 31 = r' 31" using assms[of 31] by simp
  show ?thesis by (simp only: lane0_tree a b)
qed

lemma warp_reduce_const:
  "warp_min_reduce_idx_unrolled (\<lambda>l. c) 0 = c"
  unfolding lane0_tree lane_order_def by (simp add: keep_min_def)

lemma phase1_valid: "phase1_family cfg \<Longrightarrow> valid_launch cfg = True"
  by (simp add: phase1_family_def valid_launch_def)

lemma phase2_valid: "phase2_family cfg \<Longrightarrow> valid_launch cfg = True"
  by (simp add: phase2_family_def valid_launch_def)

lemma warp32_geometry:
  fixes t :: thread
  assumes "blockDim_x cfg = 32" "threadIdx_x t < 32"
  shows "laneid cfg t = threadIdx_x t" "warpid cfg t = threadIdx_y t"
    "l < 32 \<Longrightarrow> warp_lane cfg t l = t\<lparr>threadIdx_x := l\<rparr>"
  using assms by (simp_all add: laneid_def warpid_def linear_tid_def warp_lane_def)

lemma warp32_converged:
  fixes t :: thread
  assumes "blockDim_x cfg = 32" "threadIdx_x t < 32" "threadIdx_y t < blockDim_y cfg"
  shows "warp_converged cfg t n k = (grid_y cfg t + k * gridsize_y cfg < n)"
proof -
  have "\<And>l. l < 32 \<Longrightarrow> 32 * threadIdx_y t + l < 32 * blockDim_y cfg"
    using assms(3) by linarith
  then show ?thesis
    unfolding warp_converged_def list_all_iff
    using assms by (auto simp: warp32_geometry grid_y_def)
qed

lemma map_over_nth: "map (\<lambda>k. h (xs ! k)) [0..<length xs] = map h xs"
proof -
  have "map (\<lambda>k. h (xs ! k)) ks = map h (map ((!) xs) ks)" for ks
    by simp
  then show ?thesis by (simp only: map_nth)
qed

lemma concat_singletons: "concat (map (\<lambda>k. [h (xs ! k)]) [0..<length xs]) = map h xs"
proof -
  have "concat (map (\<lambda>k. [h (xs ! k)]) ks) = map h (map ((!) xs) ks)" for ks
    by (induction ks) auto
  then show ?thesis by (simp only: map_nth)
qed

lemma concat_empties: "concat (map (\<lambda>k. []) ks) = []"
  by simp

lemma phase1_row_step:
  fixes t :: thread
  assumes fam: "phase1_family cfg" and t: "t \<in> set (threads cfg)"
    and shp: "shape0 (d_block_dist m) = length (d_obs m)" "shape1 (d_block_dist m) = 32"
             "shape0 (d_block_idx m) = length (d_obs m)" "shape1 (d_block_idx m) = 32"
    and lt: "grid_y cfg t + k * gridsize_y cfg < length (d_obs m)"
  shows "block_row_step cfg m t k =
           Inr (if threadIdx_x t = 0
                then [((grid_y cfg t + k * gridsize_y cfg, blockIdx_x t),
                       block_winner (d_ref m) (d_obs m)
                          (grid_y cfg t + k * gridsize_y cfg, blockIdx_x t))]
                else [])"
proof -
  have bx: "blockDim_x cfg = 32" and gx: "gridDim_x cfg = 32"
    using fam by (auto simp: phase1_family_def)
  have tb: "threadIdx_x t < 32" "threadIdx_y t < blockDim_y cfg" "blockIdx_x t < 32"
    using t bx gx by (auto simp: set_threads)
  have sx: "gridsize_x cfg = 1024" using bx gx by (simp add: gridsize_x_def)
  have conv: "warp_converged cfg t (length (d_obs m)) k"
    using warp32_converged[OF bx tb(1) tb(2)] lt by simp
  have red: "warp_min_reduce_idx_unrolled
            (\<lambda>l. let u = warp_lane cfg t l
                 in nearest_in_slice (d_ref m) (d_obs m ! (grid_y cfg u + k * gridsize_y cfg))
                      (grid_x cfg u) (gridsize_x cfg)) 0
          = block_winner (d_ref m) (d_obs m) (grid_y cfg t + k * gridsize_y cfg, blockIdx_x t)"
    unfolding block_winner_def
    by (rule warp_reduce_cong)
       (simp add: warp32_geometry[OF bx tb(1)] grid_y_def grid_x_def sx bx Let_def)
  show ?thesis
    unfolding block_row_step_def Let_def
    using conv lt tb(3) red[unfolded Let_def]
    by (simp add: warp32_geometry[OF bx tb(1)] in_bounds_def shp)
qed

lemma phase1_thread:
  fixes t :: thread
  assumes fam: "phase1_family cfg" and t: "t \<in> set (threads cfg)"
    and shp: "shape0 (d_block_dist m) = length (d_obs m)" "shape1 (d_block_dist m) = 32"
             "shape0 (d_block_idx m) = length (d_obs m)" "shape1 (d_block_idx m) = 32"
  shows "block_get_nearest_brute cfg m t =
           Inr (if threadIdx_x t = 0
                then map (\<lambda>i. ((i, blockIdx_x t), block_winner (d_ref m) (d_obs m) (i, blockIdx_x t)))
                         (py_range (grid_y cfg t) (length (d_obs m)) (gridsize_y cfg))
                else [])"
proof -
  let ?rows = "py_range (grid_y cfg t) (length (d_obs m)) (gridsize_y cfg)"
  let ?h = "\<lambda>i. ((i, blockIdx_x t), block_winner (d_ref m) (d_obs m) (i, blockIdx_x t))"
  have Y: "0 < gridsize_y cfg"
    using fam by (auto simp: phase1_family_def gridsize_y_def)
  have step: "block_row_step cfg m t k = Inr (if threadIdx_x t = 0 then [?h (?rows ! k)] else [])"
    if k: "k \<in> set [0..<length ?rows]" for k
  proof -
    have kl: "k < length ?rows" using k by simp
    have row: "?rows ! k = grid_y cfg t + k * gridsize_y cfg" using kl by (rule nth_py_range)
    show ?thesis unfolding row
      by (rule phase1_row_step[OF fam t shp py_range_lt[OF Y kl]])
  qed
  have "block_get_nearest_brute cfg m t
          = Inr (concat (map (\<lambda>k. if threadIdx_x t = 0 then [?h (?rows ! k)] else [])
                             [0..<length ?rows]))"
    unfolding block_get_nearest_brute_def
    by (rule collect_all_Inr) (rule step)
  also have "concat (map (\<lambda>k. if threadIdx_x t = 0 then [?h (?rows ! k)] else [])
                             [0..<length ?rows])
               = (if threadIdx_x t = 0 then map ?h ?rows else [])"
    using concat_singletons[of ?h ?rows] by simp
  finally show ?thesis .
qed

lemma py_range_elem_lt: "0 < d \<Longrightarrow> i \<in> set (py_range s n d) \<Longrightarrow> i < n"
  by (metis in_set_conv_nth nth_py_range py_range_lt)

lemma row_owner:
  assumes Y: "0 < gridDim_y cfg" "0 < blockDim_y cfg" and i: "i < n" and tx: "tx < blockDim_x cfg"
    and c: "c < gridDim_x cfg"
  defines "t \<equiv> \<lparr>blockIdx_x = c, blockIdx_y = (i mod gridsize_y cfg) div blockDim_y cfg,
                  threadIdx_x = tx, threadIdx_y = (i mod gridsize_y cfg) mod blockDim_y cfg\<rparr>"
  shows "t \<in> set (threads cfg)" "grid_y cfg t = i mod gridsize_y cfg"
    "i \<in> set (py_range (grid_y cfg t) n (gridsize_y cfg))"
proof -
  have Ypos: "0 < gridsize_y cfg" using Y by (simp add: gridsize_y_def)
  have "i mod gridsize_y cfg < blockDim_y cfg * gridDim_y cfg"
    using Ypos by (simp add: gridsize_y_def)
  then have "(i mod gridsize_y cfg) div blockDim_y cfg < gridDim_y cfg"
    using Y(2) by (simp add: less_mult_imp_div_less mult.commute)
  then show "t \<in> set (threads cfg)" using Y tx c by (simp add: set_threads t_def)
  show g: "grid_y cfg t = i mod gridsize_y cfg" by (simp add: grid_y_def t_def)
  show "i \<in> set (py_range (grid_y cfg t) n (gridsize_y cfg))"
    unfolding g by (rule in_py_range[OF Ypos i])
qed

lemma block_writes_sound:
  assumes fam: "phase1_family cfg"
    and w: "(p, v) \<in> set (concat (map (block_writes cfg m) (threads cfg)))"
  shows "v = block_winner (d_ref m) (d_obs m) p" "fst p < length (d_obs m)" "snd p < 32"
proof -
  have Y: "0 < gridsize_y cfg" and gx: "gridDim_x cfg = 32"
    using fam by (auto simp: phase1_family_def gridsize_y_def)
  obtain t where t: "t \<in> set (threads cfg)" "(p, v) \<in> set (block_writes cfg m t)"
    using w by auto
  then obtain i where i: "i \<in> set (py_range (grid_y cfg t) (length (d_obs m)) (gridsize_y cfg))"
      "p = (i, blockIdx_x t)" "v = block_winner (d_ref m) (d_obs m) (i, blockIdx_x t)"
    by (auto simp: block_writes_def split: if_splits)
  show "v = block_winner (d_ref m) (d_obs m) p" using i by simp
  show "fst p < length (d_obs m)" using i py_range_elem_lt[OF Y i(1)] by simp
  show "snd p < 32" using i t(1) gx by (simp add: set_threads)
qed

lemma block_writes_complete:
  assumes fam: "phase1_family cfg" and p: "fst p < length (d_obs m)" "snd p < 32"
  shows "(p, block_winner (d_ref m) (d_obs m) p) \<in> set (concat (map (block_writes cfg m) (threads cfg)))"
proof -
  have Y: "0 < gridDim_y cfg" "0 < blockDim_y cfg" and gx: "gridDim_x cfg = 32"
    and bx: "blockDim_x cfg = 32"
    using fam by (auto simp: phase1_family_def)
  define t where "t = \<lparr>blockIdx_x = snd p,
      blockIdx_y = (fst p mod gridsize_y cfg) div blockDim_y cfg,
      threadIdx_x = 0, threadIdx_y = (fst p mod gridsize_y cfg) mod blockDim_y cfg\<rparr>"
  have own: "t \<in> set (threads cfg)"
      "fst p \<in> set (py_range (grid_y cfg t) (length (d_obs m)) (gridsize_y cfg))"
    unfolding t_def
    using row_owner[OF Y p(1), of 0 "snd p"] p(2) gx bx by simp_all
  have "(p, block_winner (d_ref m) (d_obs m) p) \<in> set (block_writes cfg m t)"
    using own(2) by (auto simp: block_writes_def t_def image_iff intro!: bexI[of _ "fst p"])
  then show ?thesis using own(1) by auto
qed

lemma phase1_kernel:
  assumes fam: "phase1_family cfg"
    and shp: "shape0 (d_block_dist m) = length (d_obs m)" "shape1 (d_block_dist m) = 32"
             "shape0 (d_block_idx m) = length (d_obs m)" "shape1 (d_block_idx m) = 32"
  shows "block_min_reduce cfg m = Inr (after_phase1 m)"
proof -
  let ?ws = "concat (map (block_writes cfg m) (threads cfg))"
  let ?W = "\<lambda>p. block_winner (d_ref m) (d_obs m) p"
  have col: "collect (map (block_get_nearest_brute cfg m) (threads cfg)) = Inr ?ws"
    by (rule collect_all_Inr) (simp add: phase1_thread[OF fam _ shp] block_writes_def)
  have keys: "(p \<in> fst ` set ?ws) = (fst p < length (d_obs m) \<and> snd p < 32)" for p
  proof
    assume "p \<in> fst ` set ?ws"
    then obtain v where "(p, v) \<in> set ?ws" by force
    then show "fst p < length (d_obs m) \<and> snd p < 32"
      using block_writes_sound[OF fam] by blast
  next
    assume "fst p < length (d_obs m) \<and> snd p < 32"
    then have "(p, ?W p) \<in> set ?ws" using block_writes_complete[OF fam] by blast
    then show "p \<in> fst ` set ?ws" by force
  qed
  have kd: "fst ` set (map (\<lambda>(p, v, ix). (p, v)) ?ws) = fst ` set ?ws"
    and ki: "fst ` set (map (\<lambda>(p, v, ix). (p, ix)) ?ws) = fst ` set ?ws"
    by (force simp: image_iff)+
  have wd: "write_all (map (\<lambda>(p, v, ix). (p, v)) ?ws) (cell (d_block_dist m))
          = (\<lambda>p. if fst p < length (d_obs m) \<and> snd p < 32 then fst (?W p)
                  else cell (d_block_dist m) p)"
  proof -
    have "write_all (map (\<lambda>(p, v, ix). (p, v)) ?ws) (cell (d_block_dist m))
        = (\<lambda>p. if p \<in> fst ` set (map (\<lambda>(p, v, ix). (p, v)) ?ws) then fst (?W p)
                else cell (d_block_dist m) p)"
    proof (rule write_all_determined)
      fix k v assume "(k, v) \<in> set (map (\<lambda>(p, v, ix). (p, v)) ?ws)"
      then obtain ix where "(k, v, ix) \<in> set ?ws" by auto
      then have "(v, ix) = ?W k" by (rule block_writes_sound(1)[OF fam])
      then show "v = fst (?W k)" by (metis fst_conv)
    qed
    then show ?thesis unfolding kd keys .
  qed
  have wi: "write_all (map (\<lambda>(p, v, ix). (p, ix)) ?ws) (cell (d_block_idx m))
          = (\<lambda>p. if fst p < length (d_obs m) \<and> snd p < 32 then snd (?W p)
                  else cell (d_block_idx m) p)"
  proof -
    have "write_all (map (\<lambda>(p, v, ix). (p, ix)) ?ws) (cell (d_block_idx m))
        = (\<lambda>p. if p \<in> fst ` set (map (\<lambda>(p, v, ix). (p, ix)) ?ws) then snd (?W p)
                else cell (d_block_idx m) p)"
    proof (rule write_all_determined)
      fix k ix assume "(k, ix) \<in> set (map (\<lambda>(p, v, ix). (p, ix)) ?ws)"
      then obtain v where "(k, v, ix) \<in> set ?ws" by auto
      then have "(v, ix) = ?W k" by (rule block_writes_sound(1)[OF fam])
      then show "ix = snd (?W k)" by (metis snd_conv)
    qed
    then show ?thesis unfolding ki keys .
  qed
  show ?thesis
    unfolding block_min_reduce_def col after_phase1_def
    using phase1_valid[OF fam] by (simp only: not_True_eq_False if_False sum.case wd wi)
qed

lemma py_range_single: "l < 32 \<Longrightarrow> py_range l 32 32 = [l]"
proof -
  assume "l < 32"
  then have "(32 - l + (32 - 1)) div 32 = 1" by simp
  then show ?thesis unfolding py_range_def by (simp only: upt_rec[of 0 1] upt_rec[of 1 1]) simp
qed

lemma global_scan_single:
  assumes "in_bounds (d_block_dist m) (i, l)" "in_bounds (d_block_idx m) (i, l)"
  shows "global_scan m i [l] = Inr (candidate_loads m (i, l), global_candidate m (i, l))"
  using assms
  by (simp add: global_scan_def global_candidate_def candidate_loads_def Let_def)

lemma collect_traced_all_Inr:
  "(\<And>x. x \<in> set xs \<Longrightarrow> f x = Inr (g x, h x))
     \<Longrightarrow> collect_traced (map f xs) = Inr (concat (map g xs), concat (map h xs))"
  by (induction xs) simp_all

lemma collect_traced_erase:
  "map_sum id snd (collect_traced rs) = collect (map (map_sum id snd) rs)"
  by (induction rs) (auto split: sum.splits)

lemma concat_single_map: "concat (map (\<lambda>k. [f k]) ks) = map f ks"
  by (induction ks) auto

lemma phase2_row_step:
  fixes t :: thread
  assumes fam: "phase2_family cfg" and t: "t \<in> set (threads cfg)"
    and shp: "shape0 (d_block_dist m) = len (d_out_dist m)" "shape1 (d_block_dist m) = 32"
             "shape0 (d_block_idx m) = len (d_out_dist m)" "shape1 (d_block_idx m) = 32"
             "len (d_out_idx m) = len (d_out_dist m)"
    and lt: "grid_y cfg t + k * gridsize_y cfg < len (d_out_dist m)"
  shows "global_row_step cfg m t k =
           Inr (candidate_loads m (grid_y cfg t + k * gridsize_y cfg, threadIdx_x t)
                  @ [Warp_min_reduce],
                if threadIdx_x t = 0
                then [(grid_y cfg t + k * gridsize_y cfg,
                       global_winner m (grid_y cfg t + k * gridsize_y cfg))]
                else [])"
proof -
  let ?i = "grid_y cfg t + k * gridsize_y cfg"
  let ?p = "\<lambda>l. (candidate_loads m (?i, l), global_candidate m (?i, l))"
  have bx: "blockDim_x cfg = 32" and gx: "gridDim_x cfg = 1"
    using fam by (auto simp: phase2_family_def)
  have tb: "threadIdx_x t < 32" "threadIdx_y t < blockDim_y cfg" "blockIdx_x t = 0"
    using t bx gx by (auto simp: set_threads)
  have sx: "gridsize_x cfg = 32" using bx gx by (simp add: gridsize_x_def)
  have conv: "warp_converged cfg t (len (d_out_dist m)) k"
    using warp32_converged[OF bx tb(1) tb(2)] lt by simp
  have lanes: "collect (map (\<lambda>l.
                  let u = warp_lane cfg t l
                  in map_sum id (\<lambda>p. [p])
                       (global_scan m (grid_y cfg u + k * gridsize_y cfg)
                          (global_read_cols cfg m u)))
                [0..<32]) = Inr (map ?p [0..<32])"
  proof -
    have "(let u = warp_lane cfg t l
            in map_sum id (\<lambda>p. [p])
                 (global_scan m (grid_y cfg u + k * gridsize_y cfg)
                    (global_read_cols cfg m u)))
          = Inr [?p l]" if "l \<in> set [0..<32]" for l
    proof -
      have l: "l < 32" using that by simp
      have ib: "in_bounds (d_block_dist m) (?i, l)" "in_bounds (d_block_idx m) (?i, l)"
        using lt l by (simp_all add: in_bounds_def shp)
      show ?thesis
        using global_scan_single[OF ib] l
        by (simp add: Let_def warp32_geometry[OF bx tb(1)] grid_x_def grid_y_def
                      global_read_cols_def sx shp tb(3) py_range_single)
    qed
    then have "collect (map (\<lambda>l.
                  let u = warp_lane cfg t l
                  in map_sum id (\<lambda>p. [p])
                       (global_scan m (grid_y cfg u + k * gridsize_y cfg)
                          (global_read_cols cfg m u)))
                [0..<32]) = Inr (concat (map (\<lambda>l. [?p l]) [0..<32]))"
      by (rule collect_all_Inr)
    then show ?thesis by (simp only: concat_single_map)
  qed
  have red: "warp_min_reduce_idx_unrolled (\<lambda>l. snd (map ?p [0..<32] ! l)) 0 = global_winner m ?i"
    unfolding global_winner_def by (rule warp_reduce_cong) simp
  have own: "fst (map ?p [0..<32] ! threadIdx_x t) = candidate_loads m (?i, threadIdx_x t)"
    using tb(1) by simp
  show ?thesis
    unfolding global_row_step_def Let_def
    using conv lt red own lanes[unfolded Let_def]
    by (simp add: warp32_geometry[OF bx tb(1)] shp)
qed

lemma phase2_thread_traced:
  fixes t :: thread
  assumes fam: "phase2_family cfg" and t: "t \<in> set (threads cfg)"
    and shp: "shape0 (d_block_dist m) = len (d_out_dist m)" "shape1 (d_block_dist m) = 32"
             "shape0 (d_block_idx m) = len (d_out_dist m)" "shape1 (d_block_idx m) = 32"
             "len (d_out_idx m) = len (d_out_dist m)"
  shows "global_get_nearest_brute_traced cfg m t =
           Inr (concat (map (\<lambda>i. candidate_loads m (i, threadIdx_x t) @ [Warp_min_reduce])
                            (py_range (grid_y cfg t) (len (d_out_dist m)) (gridsize_y cfg))),
                global_writes cfg m t)"
proof -
  let ?rows = "py_range (grid_y cfg t) (len (d_out_dist m)) (gridsize_y cfg)"
  let ?e = "\<lambda>i. candidate_loads m (i, threadIdx_x t) @ [Warp_min_reduce]"
  let ?h = "\<lambda>i. (i, global_winner m i)"
  have Y: "0 < gridsize_y cfg"
    using fam by (auto simp: phase2_family_def gridsize_y_def)
  have step: "global_row_step cfg m t k =
                Inr (?e (?rows ! k), if threadIdx_x t = 0 then [?h (?rows ! k)] else [])"
    if k: "k \<in> set [0..<length ?rows]" for k
  proof -
    have kl: "k < length ?rows" using k by simp
    have row: "?rows ! k = grid_y cfg t + k * gridsize_y cfg" using kl by (rule nth_py_range)
    show ?thesis unfolding row
      by (rule phase2_row_step[OF fam t shp py_range_lt[OF Y kl]])
  qed
  have "global_get_nearest_brute_traced cfg m t
          = Inr (concat (map (\<lambda>k. ?e (?rows ! k)) [0..<length ?rows]),
                 concat (map (\<lambda>k. if threadIdx_x t = 0 then [?h (?rows ! k)] else [])
                             [0..<length ?rows]))"
    unfolding global_get_nearest_brute_traced_def
    by (rule collect_traced_all_Inr) (rule step)
  moreover have "map (\<lambda>k. ?e (?rows ! k)) [0..<length ?rows] = map ?e ?rows"
    by (rule map_over_nth)
  moreover have "concat (map (\<lambda>k. if threadIdx_x t = 0 then [?h (?rows ! k)] else [])
                             [0..<length ?rows])
               = global_writes cfg m t"
    using concat_singletons[of ?h ?rows] by (simp add: global_writes_def)
  ultimately show ?thesis by (simp only:)
qed

lemma phase2_thread:
  fixes t :: thread
  assumes fam: "phase2_family cfg" and t: "t \<in> set (threads cfg)"
    and shp: "shape0 (d_block_dist m) = len (d_out_dist m)" "shape1 (d_block_dist m) = 32"
             "shape0 (d_block_idx m) = len (d_out_dist m)" "shape1 (d_block_idx m) = 32"
             "len (d_out_idx m) = len (d_out_dist m)"
  shows "global_get_nearest_brute cfg m t = Inr (global_writes cfg m t)"
  unfolding global_get_nearest_brute_def phase2_thread_traced[OF fam t shp] by simp

lemma global_writes_sound:
  assumes fam: "phase2_family cfg"
    and w: "(i, v) \<in> set (concat (map (global_writes cfg m) (threads cfg)))"
  shows "v = global_winner m i" "i < len (d_out_dist m)"
proof -
  have Y: "0 < gridsize_y cfg"
    using fam by (auto simp: phase2_family_def gridsize_y_def)
  obtain t where t: "t \<in> set (threads cfg)" "(i, v) \<in> set (global_writes cfg m t)"
    using w by auto
  then have i: "i \<in> set (py_range (grid_y cfg t) (len (d_out_dist m)) (gridsize_y cfg))"
      "v = global_winner m i"
    by (auto simp: global_writes_def split: if_splits)
  show "v = global_winner m i" using i by simp
  show "i < len (d_out_dist m)" using py_range_elem_lt[OF Y i(1)] .
qed

lemma global_writes_complete:
  assumes fam: "phase2_family cfg" and i: "i < len (d_out_dist m)"
  shows "(i, global_winner m i) \<in> set (concat (map (global_writes cfg m) (threads cfg)))"
proof -
  have Y: "0 < gridDim_y cfg" "0 < blockDim_y cfg" and gx: "gridDim_x cfg = 1"
    and bx: "blockDim_x cfg = 32"
    using fam by (auto simp: phase2_family_def)
  define t where "t = \<lparr>blockIdx_x = 0,
      blockIdx_y = (i mod gridsize_y cfg) div blockDim_y cfg,
      threadIdx_x = 0, threadIdx_y = (i mod gridsize_y cfg) mod blockDim_y cfg\<rparr>"
  have own: "t \<in> set (threads cfg)"
      "i \<in> set (py_range (grid_y cfg t) (len (d_out_dist m)) (gridsize_y cfg))"
    unfolding t_def
    using row_owner[OF Y i, of 0 0] gx bx by simp_all
  have "(i, global_winner m i) \<in> set (global_writes cfg m t)"
    using own(2) by (auto simp: global_writes_def t_def image_iff intro!: bexI[of _ i])
  then show ?thesis using own(1) by auto
qed

lemma phase2_kernel:
  assumes fam: "phase2_family cfg"
    and shp: "shape0 (d_block_dist m) = len (d_out_dist m)" "shape1 (d_block_dist m) = 32"
             "shape0 (d_block_idx m) = len (d_out_dist m)" "shape1 (d_block_idx m) = 32"
             "len (d_out_idx m) = len (d_out_dist m)"
  shows "global_min_reduce cfg m = Inr (after_phase2 m)"
proof -
  let ?ws = "concat (map (global_writes cfg m) (threads cfg))"
  have col: "collect (map (global_get_nearest_brute cfg m) (threads cfg)) = Inr ?ws"
    by (rule collect_all_Inr) (rule phase2_thread[OF fam _ shp])
  have keys: "(i \<in> fst ` set ?ws) = (i < len (d_out_dist m))" for i
  proof
    assume "i \<in> fst ` set ?ws"
    then obtain v where "(i, v) \<in> set ?ws" by force
    then show "i < len (d_out_dist m)"
      using global_writes_sound[OF fam] by blast
  next
    assume "i < len (d_out_dist m)"
    then have "(i, global_winner m i) \<in> set ?ws" using global_writes_complete[OF fam] by blast
    then show "i \<in> fst ` set ?ws" by force
  qed
  have kd: "fst ` set (map (\<lambda>(p, v, ix). (p, v)) ?ws) = fst ` set ?ws"
    and ki: "fst ` set (map (\<lambda>(p, v, ix). (p, ix)) ?ws) = fst ` set ?ws"
    by (force simp: image_iff)+
  have wd: "write_all (map (\<lambda>(p, v, ix). (p, v)) ?ws) (elem (d_out_dist m))
          = (\<lambda>i. if i < len (d_out_dist m) then fst (global_winner m i)
                  else elem (d_out_dist m) i)"
  proof -
    have "write_all (map (\<lambda>(p, v, ix). (p, v)) ?ws) (elem (d_out_dist m))
        = (\<lambda>i. if i \<in> fst ` set (map (\<lambda>(p, v, ix). (p, v)) ?ws) then fst (global_winner m i)
                else elem (d_out_dist m) i)"
    proof (rule write_all_determined)
      fix k v assume "(k, v) \<in> set (map (\<lambda>(p, v, ix). (p, v)) ?ws)"
      then obtain ix where "(k, v, ix) \<in> set ?ws" by auto
      then have "(v, ix) = global_winner m k" by (rule global_writes_sound(1)[OF fam])
      then show "v = fst (global_winner m k)" by (metis fst_conv)
    qed
    then show ?thesis unfolding kd keys .
  qed
  have wi: "write_all (map (\<lambda>(p, v, ix). (p, ix)) ?ws) (elem (d_out_idx m))
          = (\<lambda>i. if i < len (d_out_dist m) then snd (global_winner m i)
                  else elem (d_out_idx m) i)"
  proof -
    have "write_all (map (\<lambda>(p, v, ix). (p, ix)) ?ws) (elem (d_out_idx m))
        = (\<lambda>i. if i \<in> fst ` set (map (\<lambda>(p, v, ix). (p, ix)) ?ws) then snd (global_winner m i)
                else elem (d_out_idx m) i)"
    proof (rule write_all_determined)
      fix k ix assume "(k, ix) \<in> set (map (\<lambda>(p, v, ix). (p, ix)) ?ws)"
      then obtain v where "(k, v, ix) \<in> set ?ws" by auto
      then have "(v, ix) = global_winner m k" by (rule global_writes_sound(1)[OF fam])
      then show "ix = snd (global_winner m k)" by (metis snd_conv)
    qed
    then show ?thesis unfolding ki keys .
  qed
  show ?thesis
    unfolding global_min_reduce_def col after_phase2_def
    using phase2_valid[OF fam] by (simp only: not_True_eq_False if_False sum.case wd wi)
qed

lemma solve_in_family:
  assumes f1: "phase1_family c1" and f2: "phase2_family c2"
  shows "snd (numba_cuda_solve_with c1 c2 u obs ref) =
           Inr (map (\<lambda>i. snd (nn_winner ref obs i)) [0..<length obs],
                map (\<lambda>i. fst (nn_winner ref obs i)) [0..<length obs])"
proof -
  define m0 where "m0 = \<lparr>d_ref = ref, d_obs = obs,
                d_block_idx = \<lparr>shape0 = length obs, shape1 = 32, cell = junk_block_idx u\<rparr>,
                d_block_dist = \<lparr>shape0 = length obs, shape1 = 32, cell = junk_block_dist u\<rparr>,
                d_out_dist = \<lparr>len = length obs, elem = junk_out_dist u\<rparr>,
                d_out_idx = \<lparr>len = length obs, elem = junk_out_idx u\<rparr>\<rparr>"
  have p1: "block_min_reduce c1 m0 = Inr (after_phase1 m0)"
    by (rule phase1_kernel[OF f1]) (simp_all add: m0_def)
  have p2: "global_min_reduce c2 (after_phase1 m0) = Inr (after_phase2 (after_phase1 m0))"
    by (rule phase2_kernel[OF f2]) (simp_all add: m0_def after_phase1_def)
  have win: "global_winner (after_phase1 m0) i = nn_winner ref obs i" if "i < length obs" for i
    unfolding global_winner_def nn_winner_def
    by (rule warp_reduce_cong)
       (use that in \<open>simp add: global_candidate_def after_phase1_def m0_def Let_def\<close>)
  have n1: "len (d_out_dist (after_phase1 m0)) = length obs"
    by (simp add: after_phase1_def m0_def)
  have od: "to_list (d_out_dist (after_phase2 (after_phase1 m0)))
              = map (\<lambda>i. fst (nn_winner ref obs i)) [0..<length obs]"
  proof -
    have "to_list (d_out_dist (after_phase2 (after_phase1 m0)))
            = map (\<lambda>i. fst (global_winner (after_phase1 m0) i)) [0..<length obs]"
      unfolding to_list_def by (simp add: after_phase2_def n1)
    also have "\<dots> = map (\<lambda>i. fst (nn_winner ref obs i)) [0..<length obs]"
      by (rule map_cong[OF refl]) (simp add: win)
    finally show ?thesis .
  qed
  have oi: "to_list (d_out_idx (after_phase2 (after_phase1 m0)))
              = map (\<lambda>i. snd (nn_winner ref obs i)) [0..<length obs]"
  proof -
    have "len (d_out_idx (after_phase1 m0)) = length obs"
      by (simp add: after_phase1_def m0_def)
    then have "to_list (d_out_idx (after_phase2 (after_phase1 m0)))
            = map (\<lambda>i. snd (global_winner (after_phase1 m0) i)) [0..<length obs]"
      unfolding to_list_def by (simp add: after_phase2_def n1)
    also have "\<dots> = map (\<lambda>i. snd (nn_winner ref obs i)) [0..<length obs]"
      by (rule map_cong[OF refl]) (simp add: win)
    finally show ?thesis .
  qed
  show ?thesis
    unfolding numba_cuda_solve_with_def Let_def m0_def[symmetric]
    by (simp only: snd_conv p1 p2 sum.case od oi)
qed

lemma nearest_in_slice_empty: "0 < d \<Longrightarrow> nearest_in_slice [] c s d = (block_seed, 0)"
proof -
  assume "0 < d"
  then have "(d - 1) div d = 0" by simp
  then show ?thesis by (simp add: nearest_in_slice_def py_range_def)
qed

lemma seeds_ordered: "block_seed < global_seed"
  by (simp add: block_seed_def global_seed_def)

lemma nn_winner_empty: "nn_winner [] obs i = (block_seed, 0)"
  by (simp add: nn_winner_def block_winner_def nearest_in_slice_empty warp_reduce_const
                seeds_ordered Let_def)

lemma hard_coded_family: "phase1_family phase1_cfg" "phase2_family phase2_cfg"
  by (simp_all add: phase1_family_def phase2_family_def phase1_cfg_def phase2_cfg_def)

lemma foldr_keep_min_first:
  "\<exists>p \<le> length ls. foldr keep_min (map r ls) (r z) = r ((ls @ [z]) ! p)
      \<and> (\<forall>q \<le> length ls. fst (r ((ls @ [z]) ! p)) \<le> fst (r ((ls @ [z]) ! q)))
      \<and> (\<forall>q < p. fst (r ((ls @ [z]) ! p)) < fst (r ((ls @ [z]) ! q)))"
proof (induction ls)
  case Nil
  show ?case by simp
next
  case (Cons a ls)
  then obtain p where p: "p \<le> length ls"
      "foldr keep_min (map r ls) (r z) = r ((ls @ [z]) ! p)"
      "\<forall>q \<le> length ls. fst (r ((ls @ [z]) ! p)) \<le> fst (r ((ls @ [z]) ! q))"
      "\<forall>q < p. fst (r ((ls @ [z]) ! p)) < fst (r ((ls @ [z]) ! q))"
    by blast
  show ?case
  proof (cases "fst (r a) > fst (r ((ls @ [z]) ! p))")
    case True
    have "\<forall>q \<le> length (a # ls). fst (r (((a # ls) @ [z]) ! Suc p)) \<le> fst (r (((a # ls) @ [z]) ! q))"
    proof (intro allI impI)
      fix q assume "q \<le> length (a # ls)"
      then show "fst (r (((a # ls) @ [z]) ! Suc p)) \<le> fst (r (((a # ls) @ [z]) ! q))"
        using True p(3) by (cases q) auto
    qed
    moreover have "\<forall>q < Suc p. fst (r (((a # ls) @ [z]) ! Suc p)) < fst (r (((a # ls) @ [z]) ! q))"
    proof (intro allI impI)
      fix q assume "q < Suc p"
      then show "fst (r (((a # ls) @ [z]) ! Suc p)) < fst (r (((a # ls) @ [z]) ! q))"
        using True p(4) by (cases q) auto
    qed
    moreover have "foldr keep_min (map r (a # ls)) (r z) = r (((a # ls) @ [z]) ! Suc p)"
      using True p(2) by (simp add: keep_min_def)
    ultimately show ?thesis using p(1) by (intro exI[of _ "Suc p"]) simp
  next
    case False
    have "\<forall>q \<le> length (a # ls). fst (r (((a # ls) @ [z]) ! 0)) \<le> fst (r (((a # ls) @ [z]) ! q))"
    proof (intro allI impI)
      fix q assume "q \<le> length (a # ls)"
      then show "fst (r (((a # ls) @ [z]) ! 0)) \<le> fst (r (((a # ls) @ [z]) ! q))"
        using False p(3) by (cases q) (auto intro: order_trans)
    qed
    moreover have "foldr keep_min (map r (a # ls)) (r z) = r (((a # ls) @ [z]) ! 0)"
      using False p(2) by (simp add: keep_min_def)
    ultimately show ?thesis by (intro exI[of _ 0]) simp
  qed
qed

lemma lane_order_nth: "q < 32 \<Longrightarrow> lane_order ! q < 32 \<and> bitrev5 (lane_order ! q) = q"
proof -
  assume "q < 32"
  then have "q \<in> set [0..<32]" by simp
  then show ?thesis
    unfolding lane_order_def bitrev5_def upt_conv_Cons_Cons
    by (simp add: upt_rec) (elim disjE; simp)
qed

lemma lane_order_bitrev: "m < 32 \<Longrightarrow> bitrev5 m < 32 \<and> lane_order ! bitrev5 m = m"
proof -
  assume "m < 32"
  then have "m \<in> set [0..<32]" by simp
  then show ?thesis
    unfolding lane_order_def bitrev5_def
    by (simp add: upt_rec) (elim disjE; simp)
qed

lemma hav_far: "haversine (0, pi) (0, 0) = pi"
  by (simp add: haversine_def)

lemma hav_same: "haversine (0, 0) (0, 0) = 0"
  by (simp add: haversine_def)

lemma nearest_single:
  "nearest_in_slice [r] c s 1024 =
     (if s = 0 \<and> haversine c r < block_seed then (haversine c r, 0) else (block_seed, 0))"
proof (cases "s = 0")
  case True
  then show ?thesis by (simp add: nearest_in_slice_def py_range_def Let_def)
next
  case False
  then have "(1 - s + 1023) div 1024 = 0" by simp
  then show ?thesis using False by (simp add: nearest_in_slice_def py_range_def)
qed

lemma warp_reduce_lane0_only:
  assumes "fst a \<le> fst b"
  shows "warp_min_reduce_idx_unrolled (\<lambda>l. if l = 0 then a else b) 0 = a"
  unfolding lane0_tree lane_order_def using assms by (auto simp: keep_min_def)

lemma block_winner_single:
  assumes "haversine (obs ! i) r < block_seed"
  shows "block_winner [r] obs (i, c) = (if c = 0 then (haversine (obs ! i) r, 0) else (block_seed, 0))"
proof (cases "c = 0")
  case True
  have "block_winner [r] obs (i, c)
          = warp_min_reduce_idx_unrolled (\<lambda>l. if l = 0 then (haversine (obs ! i) r, 0) else (block_seed, 0)) 0"
    unfolding block_winner_def using True assms by (simp add: nearest_single cong: if_cong)
  then show ?thesis using True assms by (simp add: warp_reduce_lane0_only)
next
  case False
  then show ?thesis unfolding block_winner_def by (simp add: nearest_single warp_reduce_const)
qed

lemma pi_lt_seed: "pi < block_seed"
proof -
  have "pi < 4" by (rule pi_less_4)
  then show ?thesis by (simp add: block_seed_def)
qed

lemma cex_after_phase1: "after_phase1 cex_mem0 = cex_mem1"
proof -
  have h: "haversine (two_obs ! i) (0, 0) < block_seed" if "i < 2" for i
  proof -
    have "i = 0 \<or> i = 1" using that by auto
    then show ?thesis using pi_lt_seed by (auto simp: two_obs_def hav_far hav_same block_seed_def)
  qed
  have bw: "block_winner one_ref two_obs p =
      (if snd p = 0 then (haversine (two_obs ! fst p) (0, 0), 0) else (block_seed, 0))" if "fst p < 2" for p
    using block_winner_single[OF h[OF that], of "snd p"] by (simp add: one_ref_def)
  have d0: "haversine (two_obs ! i) (0, 0) = (if i = 0 then pi else 0)" if "i < 2" for i
  proof -
    have "i = 0 \<or> i = 1" using that by auto
    then show ?thesis by (auto simp: two_obs_def hav_far hav_same)
  qed
  have len: "length two_obs = 2" by (simp add: two_obs_def)
  show ?thesis
    unfolding after_phase1_def cex_mem0_def cex_mem1_def
    by (auto simp: fun_eq_iff bw d0 block_seed_def len cex_junk_def)
qed

lemma global_scan_twice:
  assumes "in_bounds (d_block_dist m) (i, c)" "in_bounds (d_block_idx m) (i, c)"
  shows "global_scan m i [c, c] =
           Inr (candidate_loads m (i, c) @ [Load_block_dist (i, c)], global_candidate m (i, c))"
  using assms
  by (simp add: global_scan_def global_candidate_def candidate_loads_def Let_def)

lemma py_range_two: "c < 16 \<Longrightarrow> py_range c 32 16 = [c, c + 16]"
proof -
  assume "c < 16"
  then have "(32 - c + (16 - 1)) div 16 = 2" by simp
  then have "py_range c 32 16 = map (\<lambda>k. c + k * 16) [0..<2]"
    unfolding py_range_def by (simp only:)
  then show ?thesis by (simp add: numeral_2_eq_2)
qed

lemma cex_winner:
  "warp_min_reduce_idx_unrolled (\<lambda>l. global_candidate cex_mem1 (l div 16, l mod 16)) 0 = (0, 0)"
  unfolding lane0_tree lane_order_def
  by (simp add: global_candidate_def cex_mem1_def global_seed_def keep_min_def)

lemma alt_row_step:
  fixes t :: thread
  assumes t: "t \<in> set (threads alt_phase2_cfg)"
  shows "map_sum id snd (global_row_step alt_phase2_cfg cex_mem1 t 0) =
           Inr (if threadIdx_x t = 0 \<and> threadIdx_y t = 0 then [(0, 0, 0)] else [])"
proof -
  let ?cfg = alt_phase2_cfg and ?m = cex_mem1
  let ?p = "\<lambda>l. (candidate_loads ?m (l div 16, l mod 16) @ [Load_block_dist (l div 16, l mod 16)],
                  global_candidate ?m (l div 16, l mod 16))"
  have tb: "threadIdx_x t < 16" "threadIdx_y t < 2" "blockIdx_x t = 0" "blockIdx_y t = 0"
    using t by (auto simp: set_threads alt_phase2_cfg_def)
  have cf: "blockDim_x ?cfg = 16" "blockDim_y ?cfg = 2" "gridDim_x ?cfg = 1" "gridDim_y ?cfg = 1"
    by (simp_all add: alt_phase2_cfg_def)
  have lin: "linear_tid ?cfg t = threadIdx_x t + threadIdx_y t * 16"
    by (simp add: linear_tid_def cf)
  have w0: "warpid ?cfg t = 0" using tb by (simp add: warpid_def lin)
  have lane: "(laneid ?cfg t = 0) = (threadIdx_x t = 0 \<and> threadIdx_y t = 0)"
    using tb by (auto simp: laneid_def lin)
  have wl: "warp_lane ?cfg t l = t\<lparr>threadIdx_x := l mod 16, threadIdx_y := l div 16\<rparr>" for l
    unfolding warp_lane_def w0 by (simp add: cf)
  have gy: "grid_y ?cfg (warp_lane ?cfg t l) = l div 16" for l
    by (simp add: wl grid_y_def tb cf)
  have gx: "grid_x ?cfg (warp_lane ?cfg t l) = l mod 16" for l
    by (simp add: wl grid_x_def tb cf)
  have sz: "gridsize_x ?cfg = 16" "gridsize_y ?cfg = 2" "blockDim_x ?cfg * blockDim_y ?cfg = 32"
    by (simp_all add: gridsize_x_def gridsize_y_def cf)
  have shp: "len (d_out_dist ?m) = 2" "len (d_out_idx ?m) = 2" "shape1 (d_block_idx ?m) = 32"
    by (simp_all add: cex_mem1_def)
  have conv: "warp_converged ?cfg t 2 0"
    unfolding warp_converged_def list_all_iff by (auto simp: w0 sz gy)
  have cols: "global_read_cols ?cfg ?m (warp_lane ?cfg t l) = [l mod 16, l mod 16]" for l
  proof -
    have "threadIdx_x (warp_lane ?cfg t l) = l mod 16" by (simp add: wl)
    then show ?thesis by (simp add: global_read_cols_def gx sz shp py_range_two)
  qed
  have lanes: "collect (map (\<lambda>l.
                  let u = warp_lane ?cfg t l
                  in map_sum id (\<lambda>p. [p])
                       (global_scan ?m (grid_y ?cfg u) (global_read_cols ?cfg ?m u)))
                [0..<32]) = Inr (map ?p [0..<32])"
  proof -
    have "(let u = warp_lane ?cfg t l
            in map_sum id (\<lambda>p. [p])
                 (global_scan ?m (grid_y ?cfg u) (global_read_cols ?cfg ?m u)))
          = Inr [?p l]" if "l \<in> set [0..<32]" for l
    proof -
      have l: "l < 32" using that by simp
      then have "l div 16 < 2" by simp
      then have ib: "in_bounds (d_block_dist ?m) (l div 16, l mod 16)"
          "in_bounds (d_block_idx ?m) (l div 16, l mod 16)"
        by (simp_all add: in_bounds_def cex_mem1_def)
      show ?thesis
        using global_scan_twice[OF ib] by (simp add: Let_def gy cols)
    qed
    then have "collect (map (\<lambda>l.
                  let u = warp_lane ?cfg t l
                  in map_sum id (\<lambda>p. [p])
                       (global_scan ?m (grid_y ?cfg u) (global_read_cols ?cfg ?m u)))
                [0..<32]) = Inr (concat (map (\<lambda>l. [?p l]) [0..<32]))"
      by (rule collect_all_Inr)
    then show ?thesis by (simp only: concat_single_map)
  qed
  have red: "warp_min_reduce_idx_unrolled (\<lambda>l. snd (map ?p [0..<32] ! l)) 0 = (0, 0)"
  proof -
    have "warp_min_reduce_idx_unrolled (\<lambda>l. snd (map ?p [0..<32] ! l)) 0
        = warp_min_reduce_idx_unrolled (\<lambda>l. global_candidate ?m (l div 16, l mod 16)) 0"
      by (rule warp_reduce_cong) simp
    then show ?thesis by (simp only: cex_winner)
  qed
  have gyt: "grid_y ?cfg t = threadIdx_y t" by (simp add: grid_y_def tb)
  show ?thesis
  proof (cases "threadIdx_x t = 0 \<and> threadIdx_y t = 0")
    case True
    then have l0: "laneid ?cfg t = 0" using lane by simp
    show ?thesis
      unfolding global_row_step_def Let_def
      using conv True by (simp add: shp l0 gyt red lanes[unfolded Let_def])
  next
    case False
    then have l0: "laneid ?cfg t \<noteq> 0" using lane by simp
    show ?thesis
      unfolding global_row_step_def Let_def
      using conv False l0 by (simp add: shp lanes[unfolded Let_def])
  qed
qed

lemma py_range_alt_rows: "y < 2 \<Longrightarrow> length (py_range y 2 2) = 1"
  by (simp add: py_range_def)

lemma alt_thread:
  fixes t :: thread
  assumes t: "t \<in> set (threads alt_phase2_cfg)"
  shows "global_get_nearest_brute alt_phase2_cfg cex_mem1 t =
           Inr (if threadIdx_x t = 0 \<and> threadIdx_y t = 0 then [(0, 0, 0)] else [])"
proof -
  have "threadIdx_y t < 2" "blockIdx_y t = 0"
    using t by (auto simp: set_threads alt_phase2_cfg_def)
  then have "length (py_range (grid_y alt_phase2_cfg t) (len (d_out_dist cex_mem1))
                (gridsize_y alt_phase2_cfg)) = 1"
    by (simp add: grid_y_def gridsize_y_def alt_phase2_cfg_def cex_mem1_def py_range_alt_rows)
  then show ?thesis
    unfolding global_get_nearest_brute_def global_get_nearest_brute_traced_def collect_traced_erase
    by (simp add: alt_row_step[OF t])
qed

lemma alt_kernel:
  "global_min_reduce alt_phase2_cfg cex_mem1 = Inr cex_mem2"
proof -
  have col: "collect (map (global_get_nearest_brute alt_phase2_cfg cex_mem1) (threads alt_phase2_cfg))
      = Inr (concat (map (\<lambda>t. if threadIdx_x t = 0 \<and> threadIdx_y t = 0 then [(0, 0, 0)] else [])
                         (threads alt_phase2_cfg)))"
    by (rule collect_all_Inr) (rule alt_thread)
  have ws: "concat (map (\<lambda>t. if threadIdx_x t = 0 \<and> threadIdx_y t = 0 then [(0::nat, 0::real, 0::nat)] else [])
                         (threads alt_phase2_cfg)) = [(0, 0, 0)]"
    by (simp add: threads_def block_threads_def alt_phase2_cfg_def upt_rec[of _ 16] upt_rec[of _ 2] upt_rec[of _ "Suc 0"])
  have v: "valid_launch alt_phase2_cfg" by (simp add: valid_launch_def alt_phase2_cfg_def)
  show ?thesis
    unfolding global_min_reduce_def col ws
    using v by (simp add: write_all_def cex_mem1_def cex_mem2_def fun_eq_iff)
qed

lemma col_owner:
  assumes X: "0 < gridDim_x cfg" "0 < blockDim_x cfg" and j: "j < n"
    and Y: "0 < gridDim_y cfg" "0 < blockDim_y cfg"
  defines "t \<equiv> \<lparr>blockIdx_x = (j mod gridsize_x cfg) div blockDim_x cfg, blockIdx_y = 0,
                  threadIdx_x = (j mod gridsize_x cfg) mod blockDim_x cfg, threadIdx_y = 0\<rparr>"
  shows "t \<in> set (threads cfg)" "j \<in> set (py_range (grid_x cfg t) n (gridsize_x cfg))"
proof -
  have Xpos: "0 < gridsize_x cfg" using X by (simp add: gridsize_x_def)
  have "j mod gridsize_x cfg < blockDim_x cfg * gridDim_x cfg"
    using Xpos by (simp add: gridsize_x_def)
  then have "(j mod gridsize_x cfg) div blockDim_x cfg < gridDim_x cfg"
    using X(2) by (simp add: less_mult_imp_div_less mult.commute)
  then show "t \<in> set (threads cfg)" using X Y by (simp add: set_threads t_def)
  have g: "grid_x cfg t = j mod gridsize_x cfg" by (simp add: grid_x_def t_def)
  show "j \<in> set (py_range (grid_x cfg t) n (gridsize_x cfg))"
    unfolding g by (rule in_py_range[OF Xpos j])
qed

lemma positive_launch_covers:
  assumes "0 < gridDim_x cfg" "0 < blockDim_x cfg" "0 < gridDim_y cfg" "0 < blockDim_y cfg"
  shows "grid_stride_covers cfg n_rows n_cols"
proof -
  have rows: "\<exists>t\<in>set (threads cfg). i \<in> set (py_range (grid_y cfg t) n_rows (gridsize_y cfg))"
    if "i < n_rows" for i
    using row_owner(1,3)[OF assms(3,4) that assms(2,1)] by blast
  have cols: "\<exists>t\<in>set (threads cfg). j \<in> set (py_range (grid_x cfg t) n_cols (gridsize_x cfg))"
    if "j < n_cols" for j
    using col_owner[OF assms(1,2) that assms(3,4)] by blast
  show ?thesis
    unfolding grid_stride_covers_def list_all_iff list_ex_iff using rows cols by simp
qed

lemma nn_winner_single:
  assumes "haversine (obs ! i) r < block_seed"
  shows "nn_winner [r] obs i = (haversine (obs ! i) r, 0)"
proof -
  have "(\<lambda>l. let b = block_winner [r] obs (i, l)
             in if fst b < global_seed then b else (global_seed, 0))
        = (\<lambda>l. if l = 0 then (haversine (obs ! i) r, 0) else (block_seed, 0))"
    using assms seeds_ordered by (auto simp: fun_eq_iff block_winner_single[OF assms] Let_def)
  then show ?thesis
    unfolding nn_winner_def using assms by (simp add: warp_reduce_lane0_only)
qed

lemma cex_standard:
  "snd (numba_cuda_solve_with phase1_cfg phase2_cfg cex_junk two_obs one_ref) = Inr ([0, 0], [pi, 0])"
proof -
  have w0: "nn_winner one_ref two_obs 0 = (pi, 0)"
    using nn_winner_single[of two_obs 0 "(0, 0)"] pi_lt_seed
    by (simp add: one_ref_def two_obs_def hav_far)
  have w1: "nn_winner one_ref two_obs (Suc 0) = (0, 0)"
    using nn_winner_single[of two_obs "Suc 0" "(0, 0)"]
    by (simp add: one_ref_def two_obs_def hav_same block_seed_def)
  have "[0..<length two_obs] = [0, Suc 0]" by (simp add: two_obs_def upt_rec)
  then show ?thesis
    unfolding solve_in_family[OF hard_coded_family] by (simp add: w0 w1)
qed

lemma cex_alternative:
  "snd (numba_cuda_solve_with phase1_cfg alt_phase2_cfg cex_junk two_obs one_ref) = Inr ([0, 9], [0, 7])"
proof -
  have len: "length two_obs = 2" by (simp add: two_obs_def)
  have p1: "block_min_reduce phase1_cfg cex_mem0 = Inr cex_mem1"
    unfolding cex_after_phase1[symmetric]
    by (rule phase1_kernel[OF hard_coded_family(1)]) (simp_all add: cex_mem0_def len)
  have "[0..<2] = [0, Suc 0]" by (simp add: upt_rec)
  then have out: "to_list (d_out_idx cex_mem2) = [0, 9]" "to_list (d_out_dist cex_mem2) = [0, 7]"
    by (simp_all add: to_list_def cex_mem2_def)
  show ?thesis
    unfolding numba_cuda_solve_with_def Let_def len cex_mem0_def[symmetric]
    by (simp only: snd_conv p1 alt_kernel sum.case out)
qed

lemma py_range_start:
  assumes "i \<in> set (py_range s n d)" "s < d"
  shows "i mod d = s"
proof -
  obtain k where "i = s + k * d" using assms(1) by (auto simp: py_range_def)
  then show ?thesis using assms(2) by simp
qed

lemma grid_y_split:
  fixes t t' :: thread
  assumes "grid_y cfg t = grid_y cfg t'" "threadIdx_y t < blockDim_y cfg"
    "threadIdx_y t' < blockDim_y cfg"
  shows "threadIdx_y t = threadIdx_y t' \<and> blockIdx_y t = blockIdx_y t'"
proof -
  have a: "(threadIdx_y t + blockIdx_y t * blockDim_y cfg) mod blockDim_y cfg = threadIdx_y t"
    "(threadIdx_y t' + blockIdx_y t' * blockDim_y cfg) mod blockDim_y cfg = threadIdx_y t'"
    using assms(2,3) by simp_all
  have b: "(threadIdx_y t + blockIdx_y t * blockDim_y cfg) div blockDim_y cfg = blockIdx_y t"
    "(threadIdx_y t' + blockIdx_y t' * blockDim_y cfg) div blockDim_y cfg = blockIdx_y t'"
    using assms(2,3) by simp_all
  show ?thesis using a b assms(1) unfolding grid_y_def by metis
qed

lemma grid_y_lt:
  fixes t :: thread
  assumes "t \<in> set (threads cfg)"
  shows "grid_y cfg t < gridsize_y cfg"
proof -
  have t: "threadIdx_y t < blockDim_y cfg" "blockIdx_y t < gridDim_y cfg"
    using assms by (auto simp: set_threads)
  then have "Suc (blockIdx_y t) * blockDim_y cfg \<le> gridDim_y cfg * blockDim_y cfg"
    by (intro mult_le_mono1) simp
  then show ?thesis using t(1) by (simp add: grid_y_def gridsize_y_def mult.commute)
qed

lemma phase1_writer_unique:
  fixes t t' :: thread
  assumes fam: "phase1_family cfg"
    and t: "t \<in> set (threads cfg)" "(p, v) \<in> set (block_writes cfg m t)"
    and t': "t' \<in> set (threads cfg)" "(p, v') \<in> set (block_writes cfg m t')"
  shows "t = t'"
proof -
  have w: "threadIdx_x t = 0" "blockIdx_x t = snd p"
      "fst p \<in> set (py_range (grid_y cfg t) (length (d_obs m)) (gridsize_y cfg))"
    using t(2) by (auto simp: block_writes_def split: if_splits)
  have w': "threadIdx_x t' = 0" "blockIdx_x t' = snd p"
      "fst p \<in> set (py_range (grid_y cfg t') (length (d_obs m)) (gridsize_y cfg))"
    using t'(2) by (auto simp: block_writes_def split: if_splits)
  have "grid_y cfg t = fst p mod gridsize_y cfg" "grid_y cfg t' = fst p mod gridsize_y cfg"
    using py_range_start[OF w(3) grid_y_lt[OF t(1)]] py_range_start[OF w'(3) grid_y_lt[OF t'(1)]]
    by simp_all
  then have "grid_y cfg t = grid_y cfg t'" by simp
  moreover have "threadIdx_y t < blockDim_y cfg" "threadIdx_y t' < blockDim_y cfg"
    using t(1) t'(1) by (auto simp: set_threads)
  ultimately have "threadIdx_y t = threadIdx_y t' \<and> blockIdx_y t = blockIdx_y t'"
    by (rule grid_y_split)
  then show ?thesis using w(1,2) w'(1,2) by simp
qed

lemma phase2_warp_reads:
  fixes t :: thread
  assumes fam: "phase2_family cfg" and t: "t \<in> set (threads cfg)"
    and shp: "shape1 (d_block_idx m) = 32"
  shows "concat (map (\<lambda>l. global_read_cols cfg m (warp_lane cfg t l)) [0..<32]) = [0..<32]"
proof -
  have bx: "blockDim_x cfg = 32" and gx: "gridDim_x cfg = 1"
    using fam by (auto simp: phase2_family_def)
  have tb: "threadIdx_x t < 32" "blockIdx_x t = 0"
    using t bx gx by (auto simp: set_threads)
  have sx: "gridsize_x cfg = 32" using bx gx by (simp add: gridsize_x_def)
  have "global_read_cols cfg m (warp_lane cfg t l) = [l]" if "l \<in> set [0..<32]" for l
    using that
    by (simp add: global_read_cols_def warp32_geometry[OF bx tb(1)] grid_x_def sx shp tb(2)
                  bx py_range_single)
  then have "map (\<lambda>l. global_read_cols cfg m (warp_lane cfg t l)) [0..<32]
               = map (\<lambda>l. [l]) [0..<32]"
    by (intro map_cong[OF refl])
  then show ?thesis by (simp only: concat_single_map map_ident)
qed

lemma phase2_warp_trace:
  fixes t :: thread
  assumes fam: "phase2_family cfg" and t: "t \<in> set (threads cfg)" and l: "l < 32"
    and shp: "shape0 (d_block_dist m) = len (d_out_dist m)" "shape1 (d_block_dist m) = 32"
             "shape0 (d_block_idx m) = len (d_out_dist m)" "shape1 (d_block_idx m) = 32"
             "len (d_out_idx m) = len (d_out_dist m)"
  shows "warp_lane cfg t l \<in> set (threads cfg)"
    "laneid cfg (warp_lane cfg t l) = l"
    "global_get_nearest_brute_traced cfg m (warp_lane cfg t l) =
       Inr (concat (map (\<lambda>i. candidate_loads m (i, l) @ [Warp_min_reduce])
                        (py_range (grid_y cfg t) (len (d_out_dist m)) (gridsize_y cfg))),
            if l = 0
            then map (\<lambda>i. (i, global_winner m i))
                     (py_range (grid_y cfg t) (len (d_out_dist m)) (gridsize_y cfg))
            else [])"
proof -
  have bx: "blockDim_x cfg = 32" and gx: "gridDim_x cfg = 1"
    using fam by (auto simp: phase2_family_def)
  have tb: "threadIdx_x t < 32" using t bx by (auto simp: set_threads)
  have u: "warp_lane cfg t l = t\<lparr>threadIdx_x := l\<rparr>"
    by (rule warp32_geometry(3)[OF bx tb l])
  show in_u: "warp_lane cfg t l \<in> set (threads cfg)"
    unfolding u using t l bx by (auto simp: set_threads)
  have ux: "threadIdx_x (warp_lane cfg t l) = l" and uy: "grid_y cfg (warp_lane cfg t l) = grid_y cfg t"
    unfolding u by (simp_all add: grid_y_def)
  show "laneid cfg (warp_lane cfg t l) = l"
    using warp32_geometry(1)[OF bx, of "warp_lane cfg t l"] l ux by simp
  show "global_get_nearest_brute_traced cfg m (warp_lane cfg t l) =
       Inr (concat (map (\<lambda>i. candidate_loads m (i, l) @ [Warp_min_reduce])
                        (py_range (grid_y cfg t) (len (d_out_dist m)) (gridsize_y cfg))),
            if l = 0
            then map (\<lambda>i. (i, global_winner m i))
                     (py_range (grid_y cfg t) (len (d_out_dist m)) (gridsize_y cfg))
            else [])"
    unfolding phase2_thread_traced[OF fam in_u shp] global_writes_def ux uy by simp
qed

lemma host_calls:
  "fst (numba_cuda_solve u obs ref) =
     [Device_array ''d_out_idx'', Device_array ''d_out_dist'',
      Device_array ''d_block_idx'', Device_array ''d_block_dist'',
      Launch Block_min_reduce phase1_cfg, Launch Global_min_reduce phase2_cfg, Synchronize]"
  by (simp add: numba_cuda_solve_def numba_cuda_solve_with_def Let_def)

text \<open>
  The engine in exact arithmetic.  With the haversine formula read over the reals, a
  distance lies between 0 and \<open>pi\<close>, below both seeds; every scan and every warp reduction
  keeps a pair that is minimal among the candidates it has met, and the 1024 slices of
  Phase 1 partition the reference indices.
\<close>

lemma hav_arg_bounds:
  fixes x y w q :: real
  assumes xy: "x - y = 2 * w"
  shows "0 \<le> sin w * sin w + cos y * cos x * sin q * sin q"
    "sin w * sin w + cos y * cos x * sin q * sin q \<le> 1"
proof -
  let ?s1 = "sin w * sin w" and ?s2 = "sin q * sin q"
  have sq: "0 \<le> sin z * sin z" "sin z * sin z \<le> 1" for z :: real
  proof -
    show "0 \<le> sin z * sin z" by simp
    have "0 \<le> cos z * cos z" by simp
    then show "sin z * sin z \<le> 1" using sin_cos_squared_add3[of z] by linarith
  qed
  have s1: "0 \<le> ?s1" "?s1 \<le> 1" and s2: "0 \<le> ?s2" "?s2 \<le> 1"
    using sq by blast+
  have cc: "cos y * cos x = (cos (x - y) + cos (x + y)) / 2"
    by (simp add: cos_diff cos_add)
  have cd: "cos (x - y) = 1 - 2 * ?s1"
    unfolding xy cos_double_sin power2_eq_square by simp
  have half: "- s \<le> (1 - 2 * s + c) / 2" "(1 - 2 * s + c) / 2 \<le> 1 - s"
    if "- 1 \<le> c" "c \<le> 1" for s c :: real
    using that by (simp_all add: field_simps)
  have lo: "- ?s1 \<le> cos y * cos x"
    unfolding cc cd by (rule half(1)) simp_all
  have hi: "cos y * cos x \<le> 1 - ?s1"
    unfolding cc cd by (rule half(2)) simp_all
  have e: "cos y * cos x * sin q * sin q = cos y * cos x * ?s2" by (simp add: mult.assoc)
  show "0 \<le> ?s1 + cos y * cos x * sin q * sin q"
  proof (cases "0 \<le> cos y * cos x")
    case True
    then have "0 \<le> cos y * cos x * ?s2" using s2(1) by (rule mult_nonneg_nonneg)
    then show ?thesis unfolding e using s1(1) by linarith
  next
    case False
    then have "cos y * cos x * 1 \<le> cos y * cos x * ?s2"
      using s2(2) by (intro mult_left_mono_neg) simp_all
    then show ?thesis unfolding e using lo by linarith
  qed
  show "?s1 + cos y * cos x * sin q * sin q \<le> 1"
  proof (cases "0 \<le> cos y * cos x")
    case True
    then have "cos y * cos x * ?s2 \<le> cos y * cos x * 1"
      using s2(2) by (intro mult_left_mono) simp_all
    then show ?thesis unfolding e using hi by linarith
  next
    case False
    then have "cos y * cos x \<le> 0" by simp
    then have "cos y * cos x * ?s2 \<le> 0" using s2(1) by (rule mult_nonpos_nonneg)
    then show ?thesis unfolding e using s1(2) by linarith
  qed
qed

lemma haversine_bounds: "0 \<le> haversine a b" "haversine a b \<le> pi"
proof -
  define w where "w = (fst a - fst b) * 0.5"
  define q where "q = (snd a - snd b) * 0.5"
  define h where "h = sin w * sin w + cos (fst b) * cos (fst a) * sin q * sin q"
  have "fst a - fst b = 2 * w" by (simp add: w_def)
  then have h: "0 \<le> h" "h \<le> 1" unfolding h_def by (rule hav_arg_bounds)+
  then have r0: "0 \<le> sqrt h" "sqrt h \<le> 1" by simp_all
  then have "- 1 \<le> sqrt h" by linarith
  note r = r0 this
  have hv: "haversine a b = 2 * arcsin (sqrt h)"
    by (simp add: haversine_def Let_def h_def w_def q_def)
  have "0 \<le> arcsin (sqrt h)" using r by (intro arcsin_nonneg) simp
  moreover have "arcsin (sqrt h) \<le> pi / 2" using r by (intro arcsin_ubound)
  ultimately show "0 \<le> haversine a b" "haversine a b \<le> pi"
    unfolding hv by simp_all
qed

lemma haversine_lt_seed: "haversine a b < block_seed"
proof -
  have "pi < 4" by (rule pi_less_4)
  then show ?thesis using haversine_bounds(2)[of a b] by (simp add: block_seed_def)
qed


lemma nearest_scan:
  "nearest_of h (set xs)
     (foldl (\<lambda>(v, j) k. let lv = h k in if lv < v then (lv, k) else (v, j)) (block_seed, 0) xs)"
proof (induction xs rule: rev_induct)
  case Nil
  show ?case by (simp add: nearest_of_def)
next
  case (snoc x xs)
  obtain v j where p: "foldl (\<lambda>(v, j) k. let lv = h k in if lv < v then (lv, k) else (v, j))
                         (block_seed, 0) xs = (v, j)"
    by (cases "foldl (\<lambda>(v, j) k. let lv = h k in if lv < v then (lv, k) else (v, j))
                 (block_seed, 0) xs")
  have ih: "\<forall>k\<in>set xs. v \<le> h k" "(v, j) = (block_seed, 0) \<or> (j \<in> set xs \<and> v = h j)"
    using snoc unfolding p nearest_of_def by simp_all
  show ?case
  proof (cases "h x < v")
    case True
    then have "\<forall>k\<in>set xs. h x \<le> h k" using ih(1) by fastforce
    then show ?thesis using True by (simp add: p nearest_of_def)
  next
    case False
    then show ?thesis using ih by (auto simp: p nearest_of_def)
  qed
qed

lemma warp_reduce_min:
  fixes r :: "nat \<Rightarrow> 'a::linorder \<times> 'b"
  shows "\<exists>l<32. warp_min_reduce_idx_unrolled r 0 = r l \<and> (\<forall>m<32. fst (r l) \<le> fst (r m))"
proof -
  have app: "butlast lane_order @ [31] = lane_order" by (simp add: lane_order_def)
  have len: "length (butlast lane_order) = 31" by (simp add: lane_order_def)
  obtain p where p: "p \<le> 31"
      "warp_min_reduce_idx_unrolled r 0 = r (lane_order ! p)"
      "\<forall>q \<le> 31. fst (r (lane_order ! p)) \<le> fst (r (lane_order ! q))"
    using foldr_keep_min_first[of "butlast lane_order" r 31] unfolding app len lane0_tree
    by blast
  have lp: "lane_order ! p < 32" using lane_order_nth[of p] p(1) by simp
  have "\<forall>m<32. fst (r (lane_order ! p)) \<le> fst (r m)"
  proof (intro allI impI)
    fix m :: nat assume "m < 32"
    then have "bitrev5 m \<le> 31" "lane_order ! bitrev5 m = m" using lane_order_bitrev[of m] by auto
    then show "fst (r (lane_order ! p)) \<le> fst (r m)" using p(3) by metis
  qed
  then show ?thesis using p(2) lp by blast
qed

lemma nearest_of_warp:
  assumes "\<And>l. l < 32 \<Longrightarrow> nearest_of h (S l) (r l)"
  shows "nearest_of h (\<Union>l\<in>{..<32}. S l) (warp_min_reduce_idx_unrolled r 0)"
proof -
  obtain l where l: "l < 32" "warp_min_reduce_idx_unrolled r 0 = r l"
      "\<forall>m<32. fst (r l) \<le> fst (r m)"
    using warp_reduce_min[of r] by blast
  have "fst (r l) \<le> h k" if k: "k \<in> (\<Union>l\<in>{..<32}. S l)" for k
  proof -
    obtain m where m: "m < 32" "k \<in> S m" using k by auto
    have "fst (r m) \<le> h k" using assms[OF m(1)] m(2) by (simp add: nearest_of_def)
    then show ?thesis using l(3) m(1) by fastforce
  qed
  moreover have "r l = (block_seed, 0) \<or> (snd (r l) \<in> (\<Union>l\<in>{..<32}. S l) \<and> fst (r l) = h (snd (r l)))"
    using assms[OF l(1)] l(1) by (auto simp: nearest_of_def)
  ultimately show ?thesis unfolding l(2) nearest_of_def by blast
qed

lemma nearest_in_slice_nearest:
  "nearest_of (\<lambda>j. haversine c (ref ! j)) (set (py_range s (length ref) d))
     (nearest_in_slice ref c s d)"
  unfolding nearest_in_slice_def by (rule nearest_scan)

lemma block_winner_nearest:
  "nearest_of (\<lambda>j. haversine (obs ! i) (ref ! j))
     (\<Union>l\<in>{..<32}. set (py_range (l + b * 32) (length ref) 1024))
     (block_winner ref obs (i, b))"
  unfolding block_winner_def fst_conv snd_conv
  by (rule nearest_of_warp) (rule nearest_in_slice_nearest)

lemma nearest_of_lower: "nearest_of h S p \<Longrightarrow> k \<in> S \<Longrightarrow> fst p \<le> h k"
  by (simp add: nearest_of_def)

lemma nearest_of_attained:
  "nearest_of h S p \<Longrightarrow> p \<noteq> (block_seed, 0) \<Longrightarrow> snd p \<in> S \<and> fst p = h (snd p)"
  by (simp add: nearest_of_def)

lemma nearest_of_le_seed:
  assumes "nearest_of (\<lambda>j. haversine c (ref ! j)) S p"
  shows "fst p < global_seed"
proof (cases "p = (block_seed, 0)")
  case True
  then show ?thesis using seeds_ordered by simp
next
  case False
  then have "fst p = haversine c (ref ! snd p)" using nearest_of_attained[OF assms] by simp
  then show ?thesis using haversine_lt_seed[of c "ref ! snd p"] seeds_ordered by linarith
qed

lemma nn_winner_nearest:
  "nearest_of (\<lambda>j. haversine (obs ! i) (ref ! j))
     (\<Union>b\<in>{..<32}. \<Union>l\<in>{..<32}. set (py_range (l + b * 32) (length ref) 1024))
     (nn_winner ref obs i)"
proof -
  have lt: "fst (block_winner ref obs (i, b)) < global_seed" for b
    by (rule nearest_of_le_seed[OF block_winner_nearest])
  have "nn_winner ref obs i = warp_min_reduce_idx_unrolled (\<lambda>b. block_winner ref obs (i, b)) 0"
    unfolding nn_winner_def Let_def by (simp only: lt if_True)
  also have "nearest_of (\<lambda>j. haversine (obs ! i) (ref ! j))
     (\<Union>b\<in>{..<32}. \<Union>l\<in>{..<32}. set (py_range (l + b * 32) (length ref) 1024)) \<dots>"
    by (rule nearest_of_warp) (rule block_winner_nearest)
  finally show ?thesis .
qed

lemma slices_cover:
  assumes "k < n"
  shows "k \<in> (\<Union>b\<in>{..<32}. \<Union>l\<in>{..<32}. set (py_range (l + b * 32) n 1024))"
proof -
  define m where "m = k mod 1024"
  have m: "m < 1024" by (simp add: m_def)
  have e: "m mod 32 + m div 32 * 32 = m" by simp
  have "k \<in> set (py_range m n 1024)" unfolding m_def using in_py_range[of 1024 k n] assms by simp
  then have a: "k \<in> set (py_range (m mod 32 + m div 32 * 32) n 1024)" unfolding e .
  have b: "m div 32 \<in> {..<32}" "m mod 32 \<in> {..<32}" using m by simp_all
  show ?thesis by (rule UN_I[OF b(1)], rule UN_I[OF b(2)], rule a)
qed

lemma slices_sound:
  assumes "k \<in> (\<Union>b\<in>{..<32}. \<Union>l\<in>{..<32}. set (py_range (l + b * 32) n 1024))"
  shows "k < n"
proof -
  obtain b l where "k \<in> set (py_range (l + b * 32) n 1024)" using assms by (elim UN_E)
  then show ?thesis by (rule py_range_elem_lt[rotated]) simp
qed

lemma nn_winner_exact:
  assumes "ref \<noteq> []"
  shows "snd (nn_winner ref obs i) < length ref"
    "fst (nn_winner ref obs i) = haversine (obs ! i) (ref ! snd (nn_winner ref obs i))"
    "\<forall>k<length ref. fst (nn_winner ref obs i) \<le> haversine (obs ! i) (ref ! k)"
proof -
  let ?p = "nn_winner ref obs i"
  note n = nn_winner_nearest[of obs i ref]
  have le: "fst ?p \<le> haversine (obs ! i) (ref ! k)" if k: "k < length ref" for k
    by (rule nearest_of_lower[OF n slices_cover[OF k]])
  then show "\<forall>k<length ref. fst ?p \<le> haversine (obs ! i) (ref ! k)" by blast
  have "0 < length ref" using assms by simp
  then have "fst ?p \<le> haversine (obs ! i) (ref ! 0)" by (rule le)
  then have "fst ?p < block_seed" using haversine_lt_seed[of "obs ! i" "ref ! 0"] by linarith
  then have "?p \<noteq> (block_seed, 0)" by auto
  note w = nearest_of_attained[OF n this]
  show "snd ?p < length ref" using w by (intro slices_sound) simp
  show "fst ?p = haversine (obs ! i) (ref ! snd ?p)" using w by simp
qed

lemma cuda_solve_result:
  "snd (numba_cuda_solve u obs ref) =
     Inr (map (\<lambda>i. snd (nn_winner ref obs i)) [0..<length obs],
          map (\<lambda>i. fst (nn_winner ref obs i)) [0..<length obs])"
  unfolding numba_cuda_solve_def by (rule solve_in_family[OF hard_coded_family])

text \<open>
  For a non-empty reference set the engine returns, for every observation, the index of
  a reference point and the haversine distance to it, and no reference point is closer.
  This is a statement about real numbers: the rounding of the single-precision kernels
  is not modelled.
\<close>

lemma cuda_solve_nearest:
  assumes "ref \<noteq> []"
  shows "\<exists>idx dist. snd (numba_cuda_solve u obs ref) = Inr (idx, dist)
           \<and> length idx = length obs \<and> length dist = length obs
           \<and> (\<forall>i<length obs. idx ! i < length ref
                  \<and> dist ! i = haversine (obs ! i) (ref ! (idx ! i))
                  \<and> (\<forall>k<length ref. dist ! i \<le> haversine (obs ! i) (ref ! k)))"
proof -
  let ?idx = "map (\<lambda>i. snd (nn_winner ref obs i)) [0..<length obs]"
  let ?dist = "map (\<lambda>i. fst (nn_winner ref obs i)) [0..<length obs]"
  have "?idx ! i < length ref \<and> ?dist ! i = haversine (obs ! i) (ref ! (?idx ! i))
          \<and> (\<forall>k<length ref. ?dist ! i \<le> haversine (obs ! i) (ref ! k))"
    if i: "i < length obs" for i
  proof -
    have e: "?idx ! i = snd (nn_winner ref obs i)" "?dist ! i = fst (nn_winner ref obs i)"
      using i by simp_all
    show ?thesis unfolding e using nn_winner_exact[OF assms, of obs i] by blast
  qed
  then have props: "\<forall>i<length obs. ?idx ! i < length ref
      \<and> ?dist ! i = haversine (obs ! i) (ref ! (?idx ! i))
      \<and> (\<forall>k<length ref. ?dist ! i \<le> haversine (obs ! i) (ref ! k))"
    by blast
  show ?thesis
  proof (intro exI conjI)
    show "snd (numba_cuda_solve u obs ref) = Inr (?idx, ?dist)" by (rule cuda_solve_result)
    show "length ?idx = length obs" by simp
    show "length ?dist = length obs" by simp
    show "\<forall>i<length obs. ?idx ! i < length ref
      \<and> ?dist ! i = haversine (obs ! i) (ref ! (?idx ! i))
      \<and> (\<forall>k<length ref. ?dist ! i \<le> haversine (obs ! i) (ref ! k))"
      by (rule props)
  qed
qed

text \<open>
  Phase 2 on what Phase 1 leaves.  A scan never ends above its seed, so every distance
  that Phase 1 stores is below the seed of Phase 2, and each lane of Phase 2 loads the
  index with the distance.
\<close>

lemma scan_below_start:
  "fst (foldl (\<lambda>(v, j) k. let lv = h k in if lv < v then (lv, k) else (v, j)) a xs) \<le> fst (a :: real \<times> nat)"
proof (induction xs rule: rev_induct)
  case Nil
  show ?case by simp
next
  case (snoc x xs)
  obtain v j where p: "foldl (\<lambda>(v, j) k. let lv = h k in if lv < v then (lv, k) else (v, j)) a xs
                         = (v, j)"
    by (cases "foldl (\<lambda>(v, j) k. let lv = h k in if lv < v then (lv, k) else (v, j)) a xs")
  have "v \<le> fst a" using snoc unfolding p by simp
  then show ?case unfolding foldl_append foldl_Cons foldl_Nil p by (simp add: Let_def)
qed

lemma nearest_in_slice_le_seed: "fst (nearest_in_slice ref c s d) \<le> block_seed"
  unfolding nearest_in_slice_def
  using scan_below_start[of "\<lambda>j. haversine c (ref ! j)" "(block_seed, 0)"] by simp

lemma block_winner_lt_seed: "fst (block_winner ref obs p) < global_seed"
proof -
  let ?r = "\<lambda>l. nearest_in_slice ref (obs ! fst p) (l + snd p * 32) 1024"
  obtain l where "warp_min_reduce_idx_unrolled ?r 0 = ?r l"
    using warp_reduce_min[of ?r] by blast
  then have "fst (block_winner ref obs p) \<le> block_seed"
    unfolding block_winner_def using nearest_in_slice_le_seed[of ref "obs ! fst p"] by simp
  then show ?thesis using seeds_ordered by linarith
qed

lemma after_phase1_loads:
  assumes "i < length (d_obs m)" "l < 32"
  shows "candidate_loads (after_phase1 m) (i, l) = [Load_block_dist (i, l), Load_block_idx (i, l)]"
  using assms by (simp add: candidate_loads_def after_phase1_def block_winner_lt_seed)

lemma phase2_after_phase1_trace:
  fixes t :: thread
  assumes f1: "phase1_family c1" and f2: "phase2_family c2"
    and t: "t \<in> set (threads c2)" and l: "l < 32"
    and shp: "shape0 (d_block_dist m) = length (d_obs m)" "shape1 (d_block_dist m) = 32"
             "shape0 (d_block_idx m) = length (d_obs m)" "shape1 (d_block_idx m) = 32"
    and out: "len (d_out_dist m) = length (d_obs m)" "len (d_out_idx m) = length (d_obs m)"
  shows "block_min_reduce c1 m = Inr (after_phase1 m)"
    "map_sum id fst (global_get_nearest_brute_traced c2 (after_phase1 m) (warp_lane c2 t l)) =
       Inr (concat (map (\<lambda>i. [Load_block_dist (i, l), Load_block_idx (i, l), Warp_min_reduce])
                        (py_range (grid_y c2 t) (length (d_obs m)) (gridsize_y c2))))"
proof -
  let ?m = "after_phase1 m"
  let ?rows = "py_range (grid_y c2 t) (length (d_obs m)) (gridsize_y c2)"
  show "block_min_reduce c1 m = Inr ?m" by (rule phase1_kernel[OF f1 shp])
  have shp': "shape0 (d_block_dist ?m) = len (d_out_dist ?m)" "shape1 (d_block_dist ?m) = 32"
      "shape0 (d_block_idx ?m) = len (d_out_dist ?m)" "shape1 (d_block_idx ?m) = 32"
      "len (d_out_idx ?m) = len (d_out_dist ?m)"
    using shp out by (simp_all add: after_phase1_def)
  have n: "len (d_out_dist ?m) = length (d_obs m)" using out by (simp add: after_phase1_def)
  have Y: "0 < gridsize_y c2" using f2 by (auto simp: phase2_family_def gridsize_y_def)
  have "candidate_loads ?m (i, l) @ [Warp_min_reduce]
          = [Load_block_dist (i, l), Load_block_idx (i, l), Warp_min_reduce]"
    if "i \<in> set ?rows" for i
  proof -
    have "i < length (d_obs m)" using that by (rule py_range_elem_lt[OF Y])
    then show ?thesis using after_phase1_loads[OF _ l] by simp
  qed
  then have eq: "map (\<lambda>i. candidate_loads ?m (i, l) @ [Warp_min_reduce]) ?rows
               = map (\<lambda>i. [Load_block_dist (i, l), Load_block_idx (i, l), Warp_min_reduce]) ?rows"
    by (intro map_cong[OF refl])
  show "map_sum id fst (global_get_nearest_brute_traced c2 ?m (warp_lane c2 t l)) =
       Inr (concat (map (\<lambda>i. [Load_block_dist (i, l), Load_block_idx (i, l), Warp_min_reduce])
                        ?rows))"
    unfolding phase2_warp_trace(3)[OF f2 t l shp'] n eq by (simp only: map_sum.simps id_apply fst_conv)
qed

lemma foldl_checked:
  assumes "\<And>k. k \<in> set ks \<Longrightarrow> ok k"
  shows "foldl (\<lambda>acc k. case acc of Inl e \<Rightarrow> Inl e
                         | Inr v \<Rightarrow> if ok k then Inr (g v k) else Inl OutOfBounds)
               (Inr a) ks = Inr (foldl g a ks)"
  using assms by (induction ks arbitrary: a) auto

lemma dot_loop_ok:
  assumes "row < shape0 A" "shape1 A \<le> shape0 B" "col < shape1 B"
  shows "dot_loop A B row col = Inr (dot A B (shape1 A) (row, col))"
proof -
  have "k \<in> set [0..<shape1 A] \<Longrightarrow> in_bounds A (row, k) \<and> in_bounds B (k, col)" for k
    using assms by (simp add: in_bounds_def)
  then show ?thesis
    unfolding dot_loop_def dot_def
    using foldl_checked[of "[0..<shape1 A]" "\<lambda>k. in_bounds A (row, k) \<and> in_bounds B (k, col)"
                           "\<lambda>v k. v + cell A (row, k) * cell B (k, col)" 0]
    by simp
qed

lemma div_lt_ceil_div: "0 < d \<Longrightarrow> x < n \<Longrightarrow> x div d < ceil_div n d"
proof -
  assume d: "0 < d" and x: "x < n"
  have "x div d * d \<le> x" by simp
  then have "x div d * d < n" using x by linarith
  then show ?thesis unfolding ceil_div_def using py_range_bound[OF d, of "x div d" n] by simp
qed

lemma cell_owner:
  assumes d: "0 < TPB" and x: "x < shape0 A" and y: "y < shape1 B"
  defines "t \<equiv> \<lparr>blockIdx_x = x div TPB, blockIdx_y = y div TPB,
                  threadIdx_x = x mod TPB, threadIdx_y = y mod TPB\<rparr>"
  shows "t \<in> set (threads (matmul_cfg TPB A B))" "grid_x (matmul_cfg TPB A B) t = x"
    "grid_y (matmul_cfg TPB A B) t = y"
  using d div_lt_ceil_div[OF d x] div_lt_ceil_div[OF d y]
  by (simp_all add: set_threads matmul_cfg_def t_def grid_x_def grid_y_def)

lemma matmul_thread:
  fixes A B :: "('a::{zero,plus,times}) array2"
  assumes "shape1 A \<le> shape0 B"
  shows "matmul cfg A B (zeros (shape0 A) (shape1 B)) t =
           Inr (if grid_x cfg t < shape0 A \<and> grid_y cfg t < shape1 B
                then [((grid_x cfg t, grid_y cfg t), dot A B (shape1 A) (grid_x cfg t, grid_y cfg t))]
                else [])"
  using assms by (simp add: matmul_def Let_def zeros_def dot_loop_ok)

lemma matmul_cfg_valid:
  assumes "0 < TPB" "0 < shape0 A" "0 < shape1 B"
  shows "valid_launch (matmul_cfg TPB A B) = True"
  using assms div_lt_ceil_div[OF assms(1,2)] div_lt_ceil_div[OF assms(1,3)]
  by (simp add: valid_launch_def matmul_cfg_def)

lemma matmul_kernel_product:
  fixes A B :: "('a::{zero,plus,times}) array2"
  assumes d: "0 < TPB" and ne: "0 < shape0 A" "0 < shape1 B" and k: "shape1 A \<le> shape0 B"
  shows "matmul_kernel (matmul_cfg TPB A B) A B (zeros (shape0 A) (shape1 B)) = Inr (product A B)"
proof -
  let ?cfg = "matmul_cfg TPB A B"
  let ?g = "\<lambda>t. if grid_x ?cfg t < shape0 A \<and> grid_y ?cfg t < shape1 B
                then [((grid_x ?cfg t, grid_y ?cfg t), dot A B (shape1 A) (grid_x ?cfg t, grid_y ?cfg t))]
                else []"
  let ?ws = "concat (map ?g (threads ?cfg))"
  have col: "collect (map (matmul ?cfg A B (zeros (shape0 A) (shape1 B))) (threads ?cfg)) = Inr ?ws"
    by (rule collect_all_Inr) (rule matmul_thread[OF k])
  have det: "v = dot A B (shape1 A) p" if "(p, v) \<in> set ?ws" for p v
    using that by (auto split: if_splits)
  have keys: "(p \<in> fst ` set ?ws) = (fst p < shape0 A \<and> snd p < shape1 B)" for p
  proof
    assume "p \<in> fst ` set ?ws"
    then show "fst p < shape0 A \<and> snd p < shape1 B" by (auto split: if_splits)
  next
    assume p: "fst p < shape0 A \<and> snd p < shape1 B"
    define t where "t = \<lparr>blockIdx_x = fst p div TPB, blockIdx_y = snd p div TPB,
                  threadIdx_x = fst p mod TPB, threadIdx_y = snd p mod TPB\<rparr>"
    have t: "t \<in> set (threads ?cfg)" "grid_x ?cfg t = fst p" "grid_y ?cfg t = snd p"
      unfolding t_def using cell_owner[OF d, of "fst p" A "snd p" B] p by simp_all
    then have "(p, dot A B (shape1 A) p) \<in> set (?g t)" using p by simp
    then have "(p, dot A B (shape1 A) p) \<in> set ?ws" using t(1) by (auto simp del: set_concat intro!: UN_I simp: set_concat)
    then show "p \<in> fst ` set ?ws" by force
  qed
  have z: "cell (zeros (shape0 A) (shape1 B) :: 'a array2) = (\<lambda>p. 0)" by (simp add: zeros_def)
  have w0: "write_all ?ws (cell (zeros (shape0 A) (shape1 B)))
          = (\<lambda>p. if p \<in> fst ` set ?ws then dot A B (shape1 A) p
                  else cell (zeros (shape0 A) (shape1 B)) p)"
    by (rule write_all_determined) (rule det)
  have w: "write_all ?ws (cell (zeros (shape0 A) (shape1 B)))
          = (\<lambda>p. if fst p < shape0 A \<and> snd p < shape1 B then dot A B (shape1 A) p else 0)"
  proof -
    note w0
    also have "(\<lambda>p. if p \<in> fst ` set ?ws then dot A B (shape1 A) p
                  else cell (zeros (shape0 A) (shape1 B)) p)
        = (\<lambda>p. if fst p < shape0 A \<and> snd p < shape1 B then dot A B (shape1 A) p else 0)"
      by (simp only: keys z)
    finally show ?thesis .
  qed
  show ?thesis
    unfolding matmul_kernel_def col matmul_cfg_valid[OF d ne]
    by (simp add: w product_def) (simp add: zeros_def)
qed

lemma matmul_launch_result:
  fixes A B :: "('a::{zero,plus,times}) array2"
  assumes "0 < TPB" "0 < shape0 A" "0 < shape1 B" "shape1 A \<le> shape0 B"
  shows "matmul_launch TPB A B =
           ([Launch Matmul (matmul_cfg TPB A B), Synchronize], Inr (product A B))"
  using assms matmul_kernel_product[OF assms] by (simp add: matmul_launch_def Let_def)

lemma ceil_div_dvd: "0 < d \<Longrightarrow> d dvd n \<Longrightarrow> ceil_div n d = n div d"
proof -
  assume d: "0 < d" and "d dvd n"
  then obtain q where q: "n = d * q" by (auto simp: dvd_def)
  have "(d - 1 + q * d) div d = q + (d - 1) div d" using d by (intro div_mult_self1) simp
  then have "(d * q + (d - 1)) div d = q" using d by (simp add: add.commute mult.commute)
  moreover have "d * q div d = q" using d by simp
  ultimately show ?thesis unfolding ceil_div_def q by simp
qed

lemma set_blocks:
  "set (blocks cfg) = {b. fst b < gridDim_x cfg \<and> snd b < gridDim_y cfg}"
proof (intro set_eqI iffI)
  fix b assume "b \<in> set (blocks cfg)"
  then show "b \<in> {b. fst b < gridDim_x cfg \<and> snd b < gridDim_y cfg}"
    unfolding blocks_def by auto
next
  fix b assume b: "b \<in> {b. fst b < gridDim_x cfg \<and> snd b < gridDim_y cfg}"
  have "b = (fst b, snd b)" by simp
  then have "b \<in> (\<lambda>bx. (bx, snd b)) ` {0..<gridDim_x cfg}"
    using b by (intro image_eqI[of _ _ "fst b"]) auto
  then show "b \<in> set (blocks cfg)"
    unfolding blocks_def using b by auto
qed

lemma tile_in_range:
  assumes "0 < d" "d dvd n" "q < n div d" "a < d"
  shows "a + q * d < (n::nat)"
proof -
  have "Suc q * d \<le> n div d * d" using assms(3) by (intro mult_le_mono1) simp
  also have "\<dots> = n" using assms(2) by simp
  finally show ?thesis using assms(4) by simp
qed

lemma block_thread_facts:
  fixes t :: thread and A :: "'a array2" and B :: "'b array2"
  assumes d: "0 < TPB" and dv: "TPB dvd shape0 A" "TPB dvd shape1 B"
    and b: "b \<in> set (blocks (matmul_cfg TPB A B))"
    and t: "t \<in> set (block_threads (matmul_cfg TPB A B) (fst b) (snd b))"
  shows "threadIdx_x t < TPB" "threadIdx_y t < TPB"
    "grid_x (matmul_cfg TPB A B) t = threadIdx_x t + fst b * TPB"
    "grid_y (matmul_cfg TPB A B) t = threadIdx_y t + snd b * TPB"
    "grid_x (matmul_cfg TPB A B) t < shape0 A"
    "grid_y (matmul_cfg TPB A B) t < shape1 B"
proof -
  have bb: "fst b < shape0 A div TPB" "snd b < shape1 B div TPB"
    using b ceil_div_dvd[OF d dv(1)] ceil_div_dvd[OF d dv(2)]
    by (simp_all add: set_blocks matmul_cfg_def)
  have tt: "threadIdx_x t < TPB" "threadIdx_y t < TPB" "blockIdx_x t = fst b" "blockIdx_y t = snd b"
    using t by (simp_all add: set_block_threads matmul_cfg_def)
  show "threadIdx_x t < TPB" "threadIdx_y t < TPB" using tt by simp_all
  show gx: "grid_x (matmul_cfg TPB A B) t = threadIdx_x t + fst b * TPB"
    and gy: "grid_y (matmul_cfg TPB A B) t = threadIdx_y t + snd b * TPB"
    using tt by (simp_all add: grid_x_def grid_y_def matmul_cfg_def)
  show "grid_x (matmul_cfg TPB A B) t < shape0 A"
    unfolding gx by (rule tile_in_range[OF d dv(1) bb(1) tt(1)])
  show "grid_y (matmul_cfg TPB A B) t < shape1 B"
    unfolding gy by (rule tile_in_range[OF d dv(2) bb(2) tt(2)])
qed

lemma block_keys:
  "((a, c) \<in> (\<lambda>t. (threadIdx_x t, threadIdx_y t)) ` set (block_threads (matmul_cfg TPB A B) bx by))
     = (a < TPB \<and> c < TPB)"
proof
  assume "(a, c) \<in> (\<lambda>t. (threadIdx_x t, threadIdx_y t)) ` set (block_threads (matmul_cfg TPB A B) bx by)"
  then show "a < TPB \<and> c < TPB" by (auto simp: set_block_threads matmul_cfg_def)
next
  assume ac: "a < TPB \<and> c < TPB"
  define t where "t = \<lparr>blockIdx_x = bx, blockIdx_y = by, threadIdx_x = a, threadIdx_y = c\<rparr>"
  have "t \<in> set (block_threads (matmul_cfg TPB A B) bx by)"
    using ac by (simp add: set_block_threads matmul_cfg_def t_def)
  moreover have "(a, c) = (threadIdx_x t, threadIdx_y t)" by (simp add: t_def)
  ultimately show "(a, c) \<in> (\<lambda>t. (threadIdx_x t, threadIdx_y t)) ` set (block_threads (matmul_cfg TPB A B) bx by)"
    by (rule rev_image_eqI)
qed

lemma dot_chunk:
  fixes A B :: "('a::{zero,plus,times}) array2"
  shows "dot A B (i * TPB + TPB) p =
     foldl (\<lambda>acc j. acc + cell A (fst p, j + i * TPB) * cell B (j + i * TPB, snd p))
           (dot A B (i * TPB) p) [0..<TPB]"
proof -
  have "[0..<i * TPB + TPB] = [0..<i * TPB] @ [i * TPB..<i * TPB + TPB]"
    by (rule upt_add_eq_append) simp
  also have "[i * TPB..<i * TPB + TPB] = map (\<lambda>j. j + i * TPB) [0..<TPB]"
    using map_add_upt[of "i * TPB" TPB] by (simp only: add.commute)
  finally have "[0..<i * TPB + TPB] = [0..<i * TPB] @ map (\<lambda>j. j + i * TPB) [0..<TPB]" .
  then show ?thesis unfolding dot_def by (simp only: foldl_append foldl_map)
qed

lemma preload_ok:
  fixes t :: thread and A B :: "('a::{zero,plus,times}) array2"
  assumes d: "0 < TPB" and dv: "TPB dvd shape0 A" "TPB dvd shape1 B" "TPB dvd shape1 A"
    and kb: "shape0 B = shape1 A"
    and b: "b \<in> set (blocks (matmul_cfg TPB A B))"
    and t: "t \<in> set (block_threads (matmul_cfg TPB A B) (fst b) (snd b))"
    and i: "i < shape1 A div TPB"
  shows "preload TPB (matmul_cfg TPB A B) A B i t =
           Inr [((threadIdx_x t, threadIdx_y t),
                 cell A (threadIdx_x t + fst b * TPB, threadIdx_y t + i * TPB),
                 cell B (threadIdx_x t + i * TPB, threadIdx_y t + snd b * TPB))]"
proof -
  note f = block_thread_facts[OF d dv(1,2) b t]
  have "threadIdx_y t + i * TPB < shape1 A" by (rule tile_in_range[OF d dv(3) i f(2)])
  moreover have "threadIdx_x t + i * TPB < shape0 B"
    unfolding kb by (rule tile_in_range[OF d dv(3) i f(1)])
  ultimately show ?thesis
    using f(1,2,5,6) by (simp add: preload_def Let_def in_bounds_def f(3,4))
qed

lemma write_all_block:
  assumes "\<And>t. t \<in> set (block_threads (matmul_cfg TPB A B) bx by)
             \<Longrightarrow> h t = F (threadIdx_x t, threadIdx_y t)"
  shows "write_all (map (\<lambda>t. ((threadIdx_x t, threadIdx_y t), h t))
                        (block_threads (matmul_cfg TPB A B) bx by)) m
           = (\<lambda>q. if fst q < TPB \<and> snd q < TPB then F q else m q)"
proof -
  let ?ts = "block_threads (matmul_cfg TPB A B) bx by"
  let ?ws = "map (\<lambda>t. ((threadIdx_x t, threadIdx_y t), h t)) ?ts"
  have det: "v = F k" if "(k, v) \<in> set ?ws" for k v
    using that assms by auto
  have keys: "(q \<in> fst ` set ?ws) = (fst q < TPB \<and> snd q < TPB)" for q
  proof -
    have "fst ` set ?ws = (\<lambda>t. (threadIdx_x t, threadIdx_y t)) ` set ?ts"
      by (force simp: image_iff)
    then show ?thesis using block_keys[of "fst q" "snd q" TPB A B bx "by"] by simp
  qed
  have "write_all ?ws m = (\<lambda>q. if q \<in> fst ` set ?ws then F q else m q)"
    by (rule write_all_determined) (rule det)
  also have "\<dots> = (\<lambda>q. if fst q < TPB \<and> snd q < TPB then F q else m q)"
    by (simp only: keys)
  finally show ?thesis .
qed

lemma block_chunk_ok:
  fixes A B :: "('a::{zero,plus,times}) array2"
  assumes d: "0 < TPB" and dv: "TPB dvd shape0 A" "TPB dvd shape1 B" "TPB dvd shape1 A"
    and kb: "shape0 B = shape1 A"
    and b: "b \<in> set (blocks (matmul_cfg TPB A B))"
    and i: "i < shape1 A div TPB"
  shows "block_chunk TPB (matmul_cfg TPB A B) A B
           (block_threads (matmul_cfg TPB A B) (fst b) (snd b)) i st
         = Inr (chunk_result TPB A B b i st)"
proof -
  let ?cfg = "matmul_cfg TPB A B"
  let ?ts = "block_threads ?cfg (fst b) (snd b)"
  let ?h = "\<lambda>t. ((threadIdx_x t, threadIdx_y t),
                 cell A (threadIdx_x t + fst b * TPB, threadIdx_y t + i * TPB),
                 cell B (threadIdx_x t + i * TPB, threadIdx_y t + snd b * TPB))"
  let ?SA = "\<lambda>q. if fst q < TPB \<and> snd q < TPB
                 then cell A (fst q + fst b * TPB, snd q + i * TPB) else sA st q"
  let ?SB = "\<lambda>q. if fst q < TPB \<and> snd q < TPB
                 then cell B (fst q + i * TPB, snd q + snd b * TPB) else sB st q"
  have "collect (map (preload TPB ?cfg A B i) ?ts) = Inr (concat (map (\<lambda>t. [?h t]) ?ts))"
    by (rule collect_all_Inr) (rule preload_ok[OF d dv kb b _ i])
  then have col: "collect (map (preload TPB ?cfg A B i) ?ts) = Inr (map ?h ?ts)"
    by (simp only: concat_single_map)
  have a: "write_all (map (\<lambda>(p, a, b). (p, a)) (map ?h ?ts)) (sA st) = ?SA"
  proof -
    have m1: "map (\<lambda>(p, a, b). (p, a)) (map ?h ?ts)
            = map (\<lambda>t. ((threadIdx_x t, threadIdx_y t),
                        cell A (threadIdx_x t + fst b * TPB, threadIdx_y t + i * TPB))) ?ts"
      by simp
    show ?thesis unfolding m1 by (rule write_all_block) simp
  qed
  have bb: "write_all (map (\<lambda>(p, a, b). (p, b)) (map ?h ?ts)) (sB st) = ?SB"
  proof -
    have m1: "map (\<lambda>(p, a, b). (p, b)) (map ?h ?ts)
            = map (\<lambda>t. ((threadIdx_x t, threadIdx_y t),
                        cell B (threadIdx_x t + i * TPB, threadIdx_y t + snd b * TPB))) ?ts"
      by simp
    show ?thesis unfolding m1 by (rule write_all_block) simp
  qed
  have fold: "foldl (\<lambda>acc j. acc + ?SA (fst q, j) * ?SB (j, snd q)) (tmp st q) [0..<TPB]
        = foldl (\<lambda>acc j. acc + cell A (fst q + fst b * TPB, j + i * TPB)
                                * cell B (j + i * TPB, snd q + snd b * TPB)) (tmp st q) [0..<TPB]"
    if "fst q < TPB \<and> snd q < TPB" for q
    by (rule foldl_cong) (use that in auto)
  have c: "write_all (map (partial_product TPB ?SA ?SB (tmp st)) ?ts) (tmp st)
        = (\<lambda>q. if fst q < TPB \<and> snd q < TPB
                  then foldl (\<lambda>acc j. acc + cell A (fst q + fst b * TPB, j + i * TPB)
                                            * cell B (j + i * TPB, snd q + snd b * TPB))
                             (tmp st q) [0..<TPB]
                  else tmp st q)"
  proof -
    have m1: "map (partial_product TPB ?SA ?SB (tmp st)) ?ts
        = map (\<lambda>t. ((threadIdx_x t, threadIdx_y t),
                    foldl (\<lambda>acc j. acc + ?SA (threadIdx_x t, j) * ?SB (j, threadIdx_y t))
                          (tmp st (threadIdx_x t, threadIdx_y t)) [0..<TPB])) ?ts"
      by (simp add: partial_product_def Let_def)
    have "write_all (map (partial_product TPB ?SA ?SB (tmp st)) ?ts) (tmp st)
        = (\<lambda>q. if fst q < TPB \<and> snd q < TPB
                then foldl (\<lambda>acc j. acc + ?SA (fst q, j) * ?SB (j, snd q)) (tmp st q) [0..<TPB]
                else tmp st q)"
      unfolding m1 by (rule write_all_block) (simp only: fst_conv snd_conv)
    also have "\<dots> = (\<lambda>q. if fst q < TPB \<and> snd q < TPB
                  then foldl (\<lambda>acc j. acc + cell A (fst q + fst b * TPB, j + i * TPB)
                                            * cell B (j + i * TPB, snd q + snd b * TPB))
                             (tmp st q) [0..<TPB]
                  else tmp st q)"
      by (intro ext if_cong[OF refl _ refl] fold)
    finally show ?thesis .
  qed
  show ?thesis
    unfolding block_chunk_def col chunk_result_def
    by (simp only: sum.case Let_def a bb c)
qed

lemma block_chunks_ok:
  fixes A B :: "('a::{zero,plus,times}) array2"
  assumes d: "0 < TPB" and dv: "TPB dvd shape0 A" "TPB dvd shape1 B" "TPB dvd shape1 A"
    and kb: "shape0 B = shape1 A"
    and b: "b \<in> set (blocks (matmul_cfg TPB A B))"
    and n: "n \<le> shape1 A div TPB"
  shows "\<exists>st. foldl (\<lambda>r i. case r of Inl e \<Rightarrow> Inl e
                      | Inr st \<Rightarrow> block_chunk TPB (matmul_cfg TPB A B) A B
                                  (block_threads (matmul_cfg TPB A B) (fst b) (snd b)) i st)
                   (Inr \<lparr>sA = uninit, sB = uninit, tmp = (\<lambda>p. 0)\<rparr>) [0..<n] = Inr st
              \<and> (\<forall>q. fst q < TPB \<and> snd q < TPB \<longrightarrow>
                     tmp st q = dot A B (n * TPB) (fst q + fst b * TPB, snd q + snd b * TPB))"
  using n
proof (induction n)
  case 0
  show ?case by (simp add: dot_def)
next
  case (Suc n)
  then obtain st where st:
      "foldl (\<lambda>r i. case r of Inl e \<Rightarrow> Inl e
                      | Inr st \<Rightarrow> block_chunk TPB (matmul_cfg TPB A B) A B
                                  (block_threads (matmul_cfg TPB A B) (fst b) (snd b)) i st)
             (Inr \<lparr>sA = uninit, sB = uninit, tmp = (\<lambda>p. 0)\<rparr>) [0..<n] = Inr st"
      "\<And>q. fst q < TPB \<and> snd q < TPB \<Longrightarrow>
             tmp st q = dot A B (n * TPB) (fst q + fst b * TPB, snd q + snd b * TPB)"
    by auto
  have i: "n < shape1 A div TPB" using Suc.prems by simp
  have step: "foldl (\<lambda>r i. case r of Inl e \<Rightarrow> Inl e
                      | Inr st \<Rightarrow> block_chunk TPB (matmul_cfg TPB A B) A B
                                  (block_threads (matmul_cfg TPB A B) (fst b) (snd b)) i st)
             (Inr \<lparr>sA = uninit, sB = uninit, tmp = (\<lambda>p. 0)\<rparr>) [0..<Suc n]
           = Inr (chunk_result TPB A B b n st)"
    by (simp add: st(1) block_chunk_ok[OF d dv kb b i])
  have "tmp (chunk_result TPB A B b n st) q
          = dot A B (Suc n * TPB) (fst q + fst b * TPB, snd q + snd b * TPB)"
    if q: "fst q < TPB \<and> snd q < TPB" for q
  proof -
    have "tmp (chunk_result TPB A B b n st) q
        = foldl (\<lambda>acc j. acc + cell A (fst q + fst b * TPB, j + n * TPB)
                                * cell B (j + n * TPB, snd q + snd b * TPB))
                (dot A B (n * TPB) (fst q + fst b * TPB, snd q + snd b * TPB)) [0..<TPB]"
      using q by (simp add: chunk_result_def st(2)[OF q])
    also have "\<dots> = dot A B (n * TPB + TPB) (fst q + fst b * TPB, snd q + snd b * TPB)"
      by (simp only: dot_chunk fst_conv snd_conv)
    finally show ?thesis by (simp add: add.commute)
  qed
  then show ?case using step by blast
qed

lemma fast_matmul_block_ok:
  fixes A B :: "('a::{zero,plus,times}) array2"
  assumes d: "0 < TPB" and dv: "TPB dvd shape0 A" "TPB dvd shape1 B" "TPB dvd shape1 A"
    and kb: "shape0 B = shape1 A"
    and b: "b \<in> set (blocks (matmul_cfg TPB A B))"
  shows "fast_matmul_block TPB (matmul_cfg TPB A B) A B (zeros (shape0 A) (shape1 B)) uninit b
         = Inr (map (\<lambda>t. ((grid_x (matmul_cfg TPB A B) t, grid_y (matmul_cfg TPB A B) t),
                          dot A B (shape1 A)
                            (grid_x (matmul_cfg TPB A B) t, grid_y (matmul_cfg TPB A B) t)))
                    (block_threads (matmul_cfg TPB A B) (fst b) (snd b)))"
proof -
  let ?cfg = "matmul_cfg TPB A B"
  let ?C = "zeros (shape0 A) (shape1 B) :: 'a array2"
  let ?ts = "block_threads ?cfg (fst b) (snd b)"
  note f = block_thread_facts[OF d dv(1,2) b]
  have stay: "\<not> exits_early ?cfg ?C t" if "t \<in> set ?ts" for t
    using f(5)[OF that] by (simp add: exits_early_def zeros_def)
  have live: "filter (\<lambda>t. \<not> exits_early ?cfg ?C t) ?ts = ?ts"
    using stay by (simp add: filter_id_conv)
  have steps: "fast_matmul_steps TPB ?cfg A ?C t
                 = concat (map (\<lambda>i. [Preload i, Syncthreads, Partial_product i, Syncthreads])
                       [0..<shape1 A div TPB]) @ [Store_C]"
    if "t \<in> set ?ts" for t
    using stay[OF that] by (simp add: fast_matmul_steps_def)
  have uniform: "\<not> list_ex (\<lambda>t. list_ex (\<lambda>t'. barriers_reached (fast_matmul_steps TPB ?cfg A ?C t)
                                        \<noteq> barriers_reached (fast_matmul_steps TPB ?cfg A ?C t')) ?ts) ?ts"
    unfolding list_ex_iff by (simp add: steps)
  obtain st where st:
      "foldl (\<lambda>r i. case r of Inl e \<Rightarrow> Inl e
                      | Inr st \<Rightarrow> block_chunk TPB ?cfg A B ?ts i st)
             (Inr \<lparr>sA = uninit, sB = uninit, tmp = (\<lambda>p. 0)\<rparr>) [0..<shape1 A div TPB] = Inr st"
      "\<And>q. fst q < TPB \<and> snd q < TPB \<Longrightarrow>
             tmp st q = dot A B (shape1 A div TPB * TPB) (fst q + fst b * TPB, snd q + snd b * TPB)"
    using block_chunks_ok[OF d dv kb b order_refl, of uninit] by auto
  have K: "shape1 A div TPB * TPB = shape1 A" using dv(3) by simp
  have store: "store_C ?cfg ?C st t
        = Inr [((grid_x ?cfg t, grid_y ?cfg t), dot A B (shape1 A) (grid_x ?cfg t, grid_y ?cfg t))]"
    if t: "t \<in> set ?ts" for t
  proof -
    have "tmp st (threadIdx_x t, threadIdx_y t)
            = dot A B (shape1 A) (grid_x ?cfg t, grid_y ?cfg t)"
      using st(2)[of "(threadIdx_x t, threadIdx_y t)"] f(1,2)[OF t]
      by (simp add: K f(3,4)[OF t])
    then show ?thesis
      using f(5,6)[OF t] by (simp add: store_C_def Let_def in_bounds_def zeros_def)
  qed
  have "collect (map (store_C ?cfg ?C st) ?ts)
          = Inr (concat (map (\<lambda>t. [((grid_x ?cfg t, grid_y ?cfg t),
                                     dot A B (shape1 A) (grid_x ?cfg t, grid_y ?cfg t))]) ?ts))"
    by (rule collect_all_Inr) (rule store)
  then have out: "collect (map (store_C ?cfg ?C st) ?ts)
          = Inr (map (\<lambda>t. ((grid_x ?cfg t, grid_y ?cfg t),
                           dot A B (shape1 A) (grid_x ?cfg t, grid_y ?cfg t))) ?ts)"
    by (simp only: concat_single_map)
  show ?thesis
    unfolding fast_matmul_block_def Let_def live
    using uniform by (simp only: if_False st(1) sum.case out)
qed

lemma fast_matmul_product:
  fixes A B :: "('a::{zero,plus,times}) array2"
  assumes d: "0 < TPB" and ne: "0 < shape0 A" "0 < shape1 B"
    and dv: "TPB dvd shape0 A" "TPB dvd shape1 B" "TPB dvd shape1 A"
    and kb: "shape0 B = shape1 A"
  shows "fast_matmul TPB (matmul_cfg TPB A B) uninit A B (zeros (shape0 A) (shape1 B))
           = Inr (product A B)"
proof -
  let ?cfg = "matmul_cfg TPB A B"
  let ?C = "zeros (shape0 A) (shape1 B) :: 'a array2"
  let ?g = "\<lambda>b. map (\<lambda>t. ((grid_x ?cfg t, grid_y ?cfg t),
                          dot A B (shape1 A) (grid_x ?cfg t, grid_y ?cfg t)))
                    (block_threads ?cfg (fst b) (snd b))"
  let ?ws = "concat (map ?g (blocks ?cfg))"
  have col: "collect (map (fast_matmul_block TPB ?cfg A B ?C uninit) (blocks ?cfg)) = Inr ?ws"
    by (rule collect_all_Inr) (rule fast_matmul_block_ok[OF d dv kb])
  have det: "v = dot A B (shape1 A) p" if "(p, v) \<in> set ?ws" for p v
    using that by auto
  have keys: "(p \<in> fst ` set ?ws) = (fst p < shape0 A \<and> snd p < shape1 B)" for p
  proof
    assume "p \<in> fst ` set ?ws"
    then obtain b t where bt: "b \<in> set (blocks ?cfg)" "t \<in> set (block_threads ?cfg (fst b) (snd b))"
        "p = (grid_x ?cfg t, grid_y ?cfg t)"
      by auto
    show "fst p < shape0 A \<and> snd p < shape1 B"
      using block_thread_facts(5,6)[OF d dv(1,2) bt(1,2)] bt(3) by simp
  next
    assume p: "fst p < shape0 A \<and> snd p < shape1 B"
    define t where "t = \<lparr>blockIdx_x = fst p div TPB, blockIdx_y = snd p div TPB,
                  threadIdx_x = fst p mod TPB, threadIdx_y = snd p mod TPB\<rparr>"
    have b: "(fst p div TPB, snd p div TPB) \<in> set (blocks ?cfg)"
      using p div_lt_ceil_div[OF d, of "fst p" "shape0 A"] div_lt_ceil_div[OF d, of "snd p" "shape1 B"]
      by (simp add: set_blocks matmul_cfg_def)
    have t: "t \<in> set (block_threads ?cfg (fst p div TPB) (snd p div TPB))"
      using d by (simp add: set_block_threads matmul_cfg_def t_def)
    have g: "grid_x ?cfg t = fst p" "grid_y ?cfg t = snd p"
      by (simp_all add: grid_x_def grid_y_def matmul_cfg_def t_def)
    have "(p, dot A B (shape1 A) p) \<in> set (?g (fst p div TPB, snd p div TPB))"
      using t g by (auto simp: image_iff intro!: bexI[of _ t])
    moreover have "?g (fst p div TPB, snd p div TPB) \<in> set (map ?g (blocks ?cfg))"
      using b by (simp only: set_map) (rule imageI)
    ultimately have "(p, dot A B (shape1 A) p) \<in> set ?ws"
      unfolding set_concat by (rule UN_I[rotated])
    then show "p \<in> fst ` set ?ws" by force
  qed
  have z: "cell ?C = (\<lambda>p. 0)" by (simp add: zeros_def)
  have w0: "write_all ?ws (cell ?C)
          = (\<lambda>p. if p \<in> fst ` set ?ws then dot A B (shape1 A) p else cell ?C p)"
    by (rule write_all_determined) (rule det)
  have w: "write_all ?ws (cell ?C)
          = (\<lambda>p. if fst p < shape0 A \<and> snd p < shape1 B then dot A B (shape1 A) p else 0)"
  proof -
    note w0
    also have "(\<lambda>p. if p \<in> fst ` set ?ws then dot A B (shape1 A) p else cell ?C p)
        = (\<lambda>p. if fst p < shape0 A \<and> snd p < shape1 B then dot A B (shape1 A) p else 0)"
      by (simp only: keys z)
    finally show ?thesis .
  qed
  show ?thesis
    unfolding fast_matmul_def col matmul_cfg_valid[OF d ne]
    by (simp add: w product_def) (simp add: zeros_def)
qed

lemma fast_matmul_launch_result:
  fixes A B :: "('a::{zero,plus,times}) array2"
  assumes "0 < TPB" "0 < shape0 A" "0 < shape1 B"
    "TPB dvd shape0 A" "TPB dvd shape1 B" "TPB dvd shape1 A"
    "shape0 B = shape1 A"
  shows "fast_matmul_launch TPB uninit A B =
           ([Launch Fast_matmul (matmul_cfg TPB A B), Synchronize], Inr (product A B))"
  using assms(1) fast_matmul_product[OF assms]
  by (simp add: fast_matmul_launch_def Let_def)

lemma empty_launch_fails:
  "snd (fast_matmul_launch 16 uninit (zeros 0 0) (zeros 0 0 :: ('a::{zero,plus,times}) array2))
     = Inl LaunchFailure"
  "snd (matmul_launch 16 (zeros 0 0) (zeros 0 0 :: ('a::{zero,plus,times}) array2))
     = Inl LaunchFailure"
  by (simp_all add: fast_matmul_launch_def matmul_launch_def Let_def fast_matmul_def
                    matmul_kernel_def valid_launch_def matmul_cfg_def zeros_def ceil_div_def)

section \<open>The warp reduction\<close>

text \<open>
  Claim C3 (as amended).  For every assignment of a (value, index) pair to each of the 32
  lanes, the five shuffle steps of \<open>_warp_min_reduce_idx_unrolled\<close> leave on lane 0 the
  pair of one of the 32 lanes, its value is minimal among the 32 values, and among the
  lanes holding that minimal value the winner is the one whose five-bit lane number read
  backwards is smallest (the order 0, 16, 8, 24, 4, 20, ...), which is not always the
  lowest lane.
\<close>

theorem warp_min_reduce_lane0:
  fixes r :: "nat \<Rightarrow> 'a::linorder \<times> 'b"
  shows "\<exists>l<32. warp_min_reduce_idx_unrolled r 0 = r l
            \<and> (\<forall>m<32. fst (r l) \<le> fst (r m))
            \<and> (\<forall>m<32. fst (r m) = fst (r l) \<longrightarrow> bitrev5 l \<le> bitrev5 m)"
proof -
  have app: "butlast lane_order @ [31] = lane_order" by (simp add: lane_order_def)
  have len: "length (butlast lane_order) = 31" by (simp add: lane_order_def)
  obtain p where p: "p \<le> 31"
      "warp_min_reduce_idx_unrolled r 0 = r (lane_order ! p)"
      "\<forall>q \<le> 31. fst (r (lane_order ! p)) \<le> fst (r (lane_order ! q))"
      "\<forall>q < p. fst (r (lane_order ! p)) < fst (r (lane_order ! q))"
    using foldr_keep_min_first[of "butlast lane_order" r 31] unfolding app len lane0_tree
    by blast
  let ?l = "lane_order ! p"
  have lp: "?l < 32" "bitrev5 ?l = p" using lane_order_nth[of p] p(1) by auto
  have "\<forall>m<32. fst (r ?l) \<le> fst (r m)"
  proof (intro allI impI)
    fix m :: nat assume "m < 32"
    then have "bitrev5 m \<le> 31" "lane_order ! bitrev5 m = m" using lane_order_bitrev[of m] by auto
    then show "fst (r ?l) \<le> fst (r m)" using p(3) by metis
  qed
  moreover have "\<forall>m<32. fst (r m) = fst (r ?l) \<longrightarrow> bitrev5 ?l \<le> bitrev5 m"
  proof (intro allI impI)
    fix m :: nat assume m: "m < 32" "fst (r m) = fst (r ?l)"
    then have b: "lane_order ! bitrev5 m = m" using lane_order_bitrev[of m] by auto
    show "bitrev5 ?l \<le> bitrev5 m"
    proof (rule ccontr)
      assume "\<not> bitrev5 ?l \<le> bitrev5 m"
      then have "bitrev5 m < p" using lp(2) by simp
      then have "fst (r ?l) < fst (r (lane_order ! bitrev5 m))" using p(4) by blast
      then show False using b m(2) by simp
    qed
  qed
  ultimately show ?thesis using p(2) lp(1) by blast
qed

text \<open>
  The amended claim at a warp whose lanes 8 and 16 tie for the minimum: the pair on lane 0
  is the one of lane 16.
\<close>

theorem warp_min_reduce_lane0_witness:
  "\<exists>l<32. (1, 116) = tie_warp l
        \<and> (\<forall>m<32. fst (tie_warp l) \<le> fst (tie_warp m))
        \<and> (\<forall>m<32. fst (tie_warp m) = fst (tie_warp l) \<longrightarrow> bitrev5 l \<le> bitrev5 m)"
proof -
  have "warp_min_reduce_idx_unrolled tie_warp 0 = (1, 116)"
    by (simp add: warp_min_reduce_idx_unrolled_def min_step_def shfl_down_sync_def tie_warp_def)
  then show ?thesis using warp_min_reduce_lane0[of tie_warp] by simp
qed

text \<open>
  Claim C3 as stated fails: were lane 0 to end with the pair of the lowest lane that holds
  the minimal value, it would hold index 108 (lane 8) for \<open>tie_warp\<close>; it holds 116.
\<close>

theorem warp_min_lowest_lane_counterexample:
  "\<not> (\<forall>r :: nat \<Rightarrow> real \<times> nat.
        \<exists>l<32. warp_min_reduce_idx_unrolled r 0 = r l
              \<and> (\<forall>m<32. fst (r l) \<le> fst (r m))
              \<and> (\<forall>m<l. fst (r l) < fst (r m)))"
proof
  assume "\<forall>r :: nat \<Rightarrow> real \<times> nat.
        \<exists>l<32. warp_min_reduce_idx_unrolled r 0 = r l
              \<and> (\<forall>m<32. fst (r l) \<le> fst (r m))
              \<and> (\<forall>m<l. fst (r l) < fst (r m))"
  then obtain l where l: "l < 32" "warp_min_reduce_idx_unrolled tie_warp 0 = tie_warp l"
      "\<forall>m<l. fst (tie_warp l) < fst (tie_warp m)"
    by blast
  have "warp_min_reduce_idx_unrolled tie_warp 0 = (1, 116)"
    by (simp add: warp_min_reduce_idx_unrolled_def min_step_def shfl_down_sync_def tie_warp_def)
  then have "tie_warp l = (1, 116)" using l(2) by simp
  then have "l = 16" by (auto simp: tie_warp_def split: if_splits)
  then have "fst (tie_warp 16) < fst (tie_warp 8)" using l(3) by simp
  then show False by (simp add: tie_warp_def)
qed

section \<open>The nearest-neighbour engine\<close>

text \<open>
  Claim C7.  With an empty reference set the engine does not fault: for every observation
  the returned index is 0 and the returned distance is the Phase 1 seed \<open>1e11\<close>.
\<close>

theorem empty_reference_set:
  "snd (numba_cuda_solve u obs []) =
     Inr (replicate (length obs) 0, replicate (length obs) block_seed)"
  unfolding numba_cuda_solve_def solve_in_family[OF hard_coded_family]
  by (simp add: nn_winner_empty map_replicate_const)

theorem empty_reference_set_witness:
  "snd (numba_cuda_solve zero_junk one_obs []) = Inr ([0], [10 ^ 11])"
  using empty_reference_set[of zero_junk one_obs] by (simp add: one_obs_def block_seed_def)

text \<open>
  Claim C2 (as amended).  For a fixed observation set and reference set, any two launch
  configurations with 32 blocks of 32 threads along x in Phase 1 and one block of 32
  threads along x in Phase 2, whatever their positive extents along y, make the engine
  return the same indices and distances, whatever the allocated buffers held before.
\<close>

theorem launch_invariance_in_family:
  assumes "phase1_family c1" "phase2_family c2" "phase1_family c1'" "phase2_family c2'"
  shows "snd (numba_cuda_solve_with c1 c2 u obs ref)
           = snd (numba_cuda_solve_with c1' c2' u' obs ref)"
  by (simp only: solve_in_family[OF assms(1,2)] solve_in_family[OF assms(3,4)])

theorem launch_invariance_in_family_witness:
  "phase1_family phase1_cfg \<and> phase2_family phase2_cfg
   \<and> phase1_family small_phase1_cfg \<and> phase2_family small_phase2_cfg
   \<and> snd (numba_cuda_solve_with phase1_cfg phase2_cfg zero_junk two_obs one_ref)
       = snd (numba_cuda_solve_with small_phase1_cfg small_phase2_cfg cex_junk two_obs one_ref)"
proof -
  have f: "phase1_family phase1_cfg" "phase2_family phase2_cfg"
      "phase1_family small_phase1_cfg" "phase2_family small_phase2_cfg"
    by (simp_all add: phase1_family_def phase2_family_def phase1_cfg_def phase2_cfg_def
                      small_phase1_cfg_def small_phase2_cfg_def)
  show ?thesis
    using f launch_invariance_in_family[OF f, of zero_junk two_obs one_ref cex_junk] by simp
qed

text \<open>
  Claim C2 as stated fails.  A Phase 2 launch of one block of 16 x 2 threads covers every
  observation and every column of the partial results with its grid-stride iteration, as the
  launch of \<open>numba_cuda_solve\<close> does, yet for the observations \<open>(0, pi)\<close> and \<open>(0, 0)\<close>
  and the single reference point \<open>(0, 0)\<close> it returns distance 0 for observation 0, where
  the launch of \<open>numba_cuda_solve\<close> returns \<open>pi\<close>: its warp spans two observation rows.
\<close>

theorem launch_invariance_counterexample:
  "grid_stride_covers phase1_cfg 2 1 \<and> grid_stride_covers phase2_cfg 2 32
   \<and> grid_stride_covers alt_phase2_cfg 2 32
   \<and> snd (numba_cuda_solve_with phase1_cfg phase2_cfg cex_junk two_obs one_ref)
        = Inr ([0, 0], [pi, 0])
   \<and> snd (numba_cuda_solve_with phase1_cfg alt_phase2_cfg cex_junk two_obs one_ref)
        = Inr ([0, 9], [0, 7])"
proof -
  have "grid_stride_covers phase1_cfg 2 1" "grid_stride_covers phase2_cfg 2 32"
      "grid_stride_covers alt_phase2_cfg 2 32"
    by (rule positive_launch_covers; simp add: phase1_cfg_def phase2_cfg_def alt_phase2_cfg_def)+
  then show ?thesis using cex_standard cex_alternative by simp
qed

text \<open>
  Claim C4 (as amended).  The driver launches both kernels, the Phase 2 kernel directly
  after the Phase 1 kernel, with no host call between the two launches, and makes exactly
  one more call after the Phase 2 launch before it returns the result arrays: the
  blocking device-wide synchronization.
\<close>

theorem host_synchronizes_once:
  "Launch Block_min_reduce phase1_cfg \<in> set (fst (numba_cuda_solve u obs ref))
   \<and> Launch Global_min_reduce phase2_cfg \<in> set (fst (numba_cuda_solve u obs ref))
   \<and> calls_between (is_launch Block_min_reduce) (is_launch Global_min_reduce)
       (fst (numba_cuda_solve u obs ref)) = []
   \<and> calls_after (is_launch Global_min_reduce) (fst (numba_cuda_solve u obs ref))
       = [Synchronize]"
  unfolding host_calls by (simp add: calls_between_def calls_after_def is_launch_def)

text \<open>
  Claim C4 as stated fails: no synchronization is among the host calls made between the
  launch of Phase 1 and the launch of Phase 2.
\<close>

theorem no_barrier_between_phases_counterexample:
  "\<not> Synchronize \<in> set (calls_between (is_launch Block_min_reduce)
                            (is_launch Global_min_reduce)
                            (fst (numba_cuda_solve zero_junk one_obs one_ref)))"
  unfolding host_calls by (simp add: calls_between_def calls_after_def is_launch_def)

text \<open>
  Claim C9.  Whatever the launch configuration, a Phase 1 kernel that completes leaves
  the reference set and the observation set as they were (and the output arrays of
  Phase 2 as well): it stores to the two arrays of partial results only.
\<close>

theorem phase1_writes_only_block_partial:
  assumes "block_min_reduce cfg m = Inr m'"
  shows "d_ref m' = d_ref m \<and> d_obs m' = d_obs m
         \<and> d_out_dist m' = d_out_dist m \<and> d_out_idx m' = d_out_idx m"
  using assms by (auto simp: block_min_reduce_def split: sum.splits if_splits)

theorem phase1_writes_only_block_partial_witness:
  "block_min_reduce phase1_cfg one_ref_mem = Inr (after_phase1 one_ref_mem)
   \<and> d_ref (after_phase1 one_ref_mem) = one_ref \<and> d_obs (after_phase1 one_ref_mem) = one_obs"
proof -
  have r: "block_min_reduce phase1_cfg one_ref_mem = Inr (after_phase1 one_ref_mem)"
    by (rule phase1_kernel[OF hard_coded_family(1)]) (simp_all add: one_ref_mem_def one_obs_def)
  show ?thesis
    using r phase1_writes_only_block_partial[OF r] by (simp add: one_ref_mem_def)
qed

text \<open>
  Claim C10.  Under the launch configuration of \<open>numba_cuda_solve\<close>, with the arrays
  allocated as the driver does (one row of 32 columns of partial results, and one output
  cell, per observation): every store of a Phase 1 thread goes to a column below 32; every
  cell \<open>(i, c)\<close> of the partial results is stored to by exactly one thread, and that
  thread is lane 0 of its warp; and in Phase 2, for every warp, the thread on lane \<open>l\<close>
  runs \<open>_global_get_nearest_brute\<close> as follows: for each row \<open>i\<close> of the warp in turn, it
  loads \<open>block_dist[i, l]\<close> once, then \<open>block_idx[i, l]\<close> (once, and only when the distance
  is below the seed \<open>1e30\<close>), and nothing else, and then enters the warp reduction; lane 0
  stores the result of the reduction for row \<open>i\<close>.  So the 32 lanes of a warp load the
  columns 0, ..., 31 of the row, each column by one lane and once, before the reduction.
  Last, the launch of Phase 1 completes, and on the arrays it leaves every distance is
  below that seed: there the events of the thread on lane \<open>l\<close> are, row after row, the
  load of \<open>block_dist[i, l]\<close>, the load of \<open>block_idx[i, l]\<close> and the reduction.
\<close>

theorem hard_coded_launch_accesses:
  assumes shp: "shape0 (d_block_dist m) = length (d_obs m)" "shape1 (d_block_dist m) = 32"
               "shape0 (d_block_idx m) = length (d_obs m)" "shape1 (d_block_idx m) = 32"
    and out: "len (d_out_dist m) = length (d_obs m)" "len (d_out_idx m) = length (d_obs m)"
  shows "(\<forall>t\<in>set (threads phase1_cfg). \<forall>ws w.
            block_get_nearest_brute phase1_cfg m t = Inr ws \<longrightarrow> w \<in> set ws
              \<longrightarrow> snd (fst w) < 32)
       \<and> (\<forall>i<length (d_obs m). \<forall>c<32.
            \<exists>!t. t \<in> set (threads phase1_cfg)
                 \<and> (\<exists>ws v. block_get_nearest_brute phase1_cfg m t = Inr ws
                           \<and> ((i, c), v) \<in> set ws))
       \<and> (\<forall>t\<in>set (threads phase1_cfg). \<forall>ws.
            block_get_nearest_brute phase1_cfg m t = Inr ws \<longrightarrow> ws \<noteq> []
              \<longrightarrow> laneid phase1_cfg t = 0)
       \<and> (\<forall>t\<in>set (threads phase2_cfg).
            concat (map (\<lambda>l. global_read_cols phase2_cfg m (warp_lane phase2_cfg t l)) [0..<32])
              = [0..<32])
       \<and> (\<forall>t\<in>set (threads phase2_cfg). \<forall>l<32.
            warp_lane phase2_cfg t l \<in> set (threads phase2_cfg)
            \<and> laneid phase2_cfg (warp_lane phase2_cfg t l) = l
            \<and> global_get_nearest_brute_traced phase2_cfg m (warp_lane phase2_cfg t l) =
                Inr (concat (map (\<lambda>i. candidate_loads m (i, l) @ [Warp_min_reduce])
                               (py_range (grid_y phase2_cfg t) (length (d_obs m))
                                  (gridsize_y phase2_cfg))),
                     if l = 0
                     then map (\<lambda>i. (i, warp_min_reduce_idx_unrolled
                                           (\<lambda>c. global_candidate m (i, c)) 0))
                              (py_range (grid_y phase2_cfg t) (length (d_obs m))
                                 (gridsize_y phase2_cfg))
                     else []))
       \<and> (\<exists>m'. block_min_reduce phase1_cfg m = Inr m'
            \<and> (\<forall>t\<in>set (threads phase2_cfg). \<forall>l<32.
                 map_sum id fst
                   (global_get_nearest_brute_traced phase2_cfg m' (warp_lane phase2_cfg t l)) =
                   Inr (concat (map (\<lambda>i. [Load_block_dist (i, l), Load_block_idx (i, l),
                                          Warp_min_reduce])
                                  (py_range (grid_y phase2_cfg t) (length (d_obs m))
                                     (gridsize_y phase2_cfg))))))"
proof -
  note fam = hard_coded_family(1)
  have thr: "block_get_nearest_brute phase1_cfg m t = Inr (block_writes phase1_cfg m t)"
    if "t \<in> set (threads phase1_cfg)" for t
    using phase1_thread[OF fam that shp] by (simp add: block_writes_def)
  have a: "\<forall>t\<in>set (threads phase1_cfg). \<forall>ws w.
            block_get_nearest_brute phase1_cfg m t = Inr ws \<longrightarrow> w \<in> set ws
              \<longrightarrow> snd (fst w) < 32"
  proof (intro ballI allI impI)
    fix t :: thread and ws and w :: "(nat \<times> nat) \<times> real \<times> nat"
    assume t: "t \<in> set (threads phase1_cfg)"
      and "block_get_nearest_brute phase1_cfg m t = Inr ws" and w: "w \<in> set ws"
    then have "ws = block_writes phase1_cfg m t" using thr[OF t] by simp
    then have "(fst w, snd w) \<in> set (concat (map (block_writes phase1_cfg m) (threads phase1_cfg)))"
      using t w by auto
    then show "snd (fst w) < 32" by (rule block_writes_sound(3)[OF fam])
  qed
  have b: "\<forall>i<length (d_obs m). \<forall>c<32.
            \<exists>!t. t \<in> set (threads phase1_cfg)
                 \<and> (\<exists>ws v. block_get_nearest_brute phase1_cfg m t = Inr ws
                           \<and> ((i, c), v) \<in> set ws)"
  proof (intro allI impI)
    fix i c assume i: "i < length (d_obs m)" and c: "c < (32::nat)"
    have "((i, c), block_winner (d_ref m) (d_obs m) (i, c))
            \<in> set (concat (map (block_writes phase1_cfg m) (threads phase1_cfg)))"
      using block_writes_complete[OF fam, of "(i, c)" m] i c by simp
    then obtain t where t: "t \<in> set (threads phase1_cfg)"
        "((i, c), block_winner (d_ref m) (d_obs m) (i, c)) \<in> set (block_writes phase1_cfg m t)"
      by auto
    show "\<exists>!t. t \<in> set (threads phase1_cfg)
                 \<and> (\<exists>ws v. block_get_nearest_brute phase1_cfg m t = Inr ws
                           \<and> ((i, c), v) \<in> set ws)"
    proof (rule ex1I[of _ t])
      show "t \<in> set (threads phase1_cfg)
              \<and> (\<exists>ws v. block_get_nearest_brute phase1_cfg m t = Inr ws \<and> ((i, c), v) \<in> set ws)"
        using t thr[OF t(1)] by blast
    next
      fix t' :: thread
      assume "t' \<in> set (threads phase1_cfg)
              \<and> (\<exists>ws v. block_get_nearest_brute phase1_cfg m t' = Inr ws \<and> ((i, c), v) \<in> set ws)"
      then obtain v where t': "t' \<in> set (threads phase1_cfg)"
          "((i, c), v) \<in> set (block_writes phase1_cfg m t')"
        using thr by auto
      show "t' = t" by (rule phase1_writer_unique[OF fam t' t])
    qed
  qed
  have c: "\<forall>t\<in>set (threads phase1_cfg). \<forall>ws.
            block_get_nearest_brute phase1_cfg m t = Inr ws \<longrightarrow> ws \<noteq> []
              \<longrightarrow> laneid phase1_cfg t = 0"
  proof (intro ballI allI impI)
    fix t :: thread and ws
    assume t: "t \<in> set (threads phase1_cfg)"
      and r: "block_get_nearest_brute phase1_cfg m t = Inr ws" and ne: "ws \<noteq> []"
    have "ws = block_writes phase1_cfg m t" using thr[OF t] r by simp
    then have "threadIdx_x t = 0" using ne by (auto simp: block_writes_def split: if_splits)
    moreover have "blockDim_x phase1_cfg = 32" by (simp add: phase1_cfg_def)
    ultimately show "laneid phase1_cfg t = 0" by (simp add: warp32_geometry(1))
  qed
  have d: "\<forall>t\<in>set (threads phase2_cfg).
            concat (map (\<lambda>l. global_read_cols phase2_cfg m (warp_lane phase2_cfg t l)) [0..<32])
              = [0..<32]"
    using phase2_warp_reads[OF hard_coded_family(2) _ shp(4)] by blast
  have shp2: "shape0 (d_block_dist m) = len (d_out_dist m)" "shape1 (d_block_dist m) = 32"
      "shape0 (d_block_idx m) = len (d_out_dist m)" "shape1 (d_block_idx m) = 32"
      "len (d_out_idx m) = len (d_out_dist m)"
    using shp out by simp_all
  have e: "\<forall>t\<in>set (threads phase2_cfg). \<forall>l<32.
            warp_lane phase2_cfg t l \<in> set (threads phase2_cfg)
            \<and> laneid phase2_cfg (warp_lane phase2_cfg t l) = l
            \<and> global_get_nearest_brute_traced phase2_cfg m (warp_lane phase2_cfg t l) =
                Inr (concat (map (\<lambda>i. candidate_loads m (i, l) @ [Warp_min_reduce])
                               (py_range (grid_y phase2_cfg t) (length (d_obs m))
                                  (gridsize_y phase2_cfg))),
                     if l = 0
                     then map (\<lambda>i. (i, warp_min_reduce_idx_unrolled
                                           (\<lambda>c. global_candidate m (i, c)) 0))
                              (py_range (grid_y phase2_cfg t) (length (d_obs m))
                                 (gridsize_y phase2_cfg))
                     else [])"
  proof (intro ballI allI impI conjI)
    fix t :: thread and l :: nat
    assume t: "t \<in> set (threads phase2_cfg)" and l: "l < 32"
    note tr = phase2_warp_trace[OF hard_coded_family(2) t l shp2]
    show "warp_lane phase2_cfg t l \<in> set (threads phase2_cfg)" by (rule tr(1))
    show "laneid phase2_cfg (warp_lane phase2_cfg t l) = l" by (rule tr(2))
    show "global_get_nearest_brute_traced phase2_cfg m (warp_lane phase2_cfg t l) =
                Inr (concat (map (\<lambda>i. candidate_loads m (i, l) @ [Warp_min_reduce])
                               (py_range (grid_y phase2_cfg t) (length (d_obs m))
                                  (gridsize_y phase2_cfg))),
                     if l = 0
                     then map (\<lambda>i. (i, warp_min_reduce_idx_unrolled
                                           (\<lambda>c. global_candidate m (i, c)) 0))
                              (py_range (grid_y phase2_cfg t) (length (d_obs m))
                                 (gridsize_y phase2_cfg))
                     else [])"
      using tr(3) unfolding out(1) global_winner_def .
  qed
  have f: "\<exists>m'. block_min_reduce phase1_cfg m = Inr m'
            \<and> (\<forall>t\<in>set (threads phase2_cfg). \<forall>l<32.
                 map_sum id fst
                   (global_get_nearest_brute_traced phase2_cfg m' (warp_lane phase2_cfg t l)) =
                   Inr (concat (map (\<lambda>i. [Load_block_dist (i, l), Load_block_idx (i, l),
                                          Warp_min_reduce])
                                  (py_range (grid_y phase2_cfg t) (length (d_obs m))
                                     (gridsize_y phase2_cfg)))))"
  proof (intro exI[of _ "after_phase1 m"] conjI ballI allI impI)
    show "block_min_reduce phase1_cfg m = Inr (after_phase1 m)"
      by (rule phase1_kernel[OF fam shp])
  next
    fix t :: thread and l :: nat
    assume t: "t \<in> set (threads phase2_cfg)" and l: "l < 32"
    show "map_sum id fst
            (global_get_nearest_brute_traced phase2_cfg (after_phase1 m) (warp_lane phase2_cfg t l)) =
          Inr (concat (map (\<lambda>i. [Load_block_dist (i, l), Load_block_idx (i, l), Warp_min_reduce])
                          (py_range (grid_y phase2_cfg t) (length (d_obs m))
                             (gridsize_y phase2_cfg))))"
      by (rule phase2_after_phase1_trace(2)[OF hard_coded_family t l shp out])
  qed
  show ?thesis
    apply (intro conjI)
    apply (rule a)
    apply (rule b)
    apply (rule c)
    apply (rule d)
    apply (rule e)
    apply (rule f)
    done
qed

text \<open>
  The claim at a memory with one observation, for the warp of the first thread of
  Phase 2: the cell (0, 0) has one writer in Phase 1, and lane 5 of the warp loads
  \<open>block_dist[0, 5]\<close> and \<open>block_idx[0, 5]\<close>, enters the reduction and stores nothing.
\<close>

theorem hard_coded_launch_accesses_witness:
  "shape0 (d_block_dist one_ref_mem) = length (d_obs one_ref_mem)
   \<and> shape1 (d_block_dist one_ref_mem) = 32
   \<and> shape0 (d_block_idx one_ref_mem) = length (d_obs one_ref_mem)
   \<and> shape1 (d_block_idx one_ref_mem) = 32
   \<and> len (d_out_dist one_ref_mem) = length (d_obs one_ref_mem)
   \<and> len (d_out_idx one_ref_mem) = length (d_obs one_ref_mem)
   \<and> 0 < length (d_obs one_ref_mem)
   \<and> (\<exists>!t. t \<in> set (threads phase1_cfg)
           \<and> (\<exists>ws v. block_get_nearest_brute phase1_cfg one_ref_mem t = Inr ws
                     \<and> ((0, 0), v) \<in> set ws))
   \<and> \<lparr>blockIdx_x = 0, blockIdx_y = 0, threadIdx_x = 0, threadIdx_y = 0\<rparr>
        \<in> set (threads phase2_cfg)
   \<and> concat (map (\<lambda>l. global_read_cols phase2_cfg one_ref_mem
                         (warp_lane phase2_cfg
                            \<lparr>blockIdx_x = 0, blockIdx_y = 0, threadIdx_x = 0, threadIdx_y = 0\<rparr> l))
                  [0..<32]) = [0..<32]
   \<and> global_get_nearest_brute_traced phase2_cfg one_ref_mem
        (warp_lane phase2_cfg
           \<lparr>blockIdx_x = 0, blockIdx_y = 0, threadIdx_x = 0, threadIdx_y = 0\<rparr> 5)
       = Inr ([Load_block_dist (0, 5), Load_block_idx (0, 5), Warp_min_reduce], [])
   \<and> (\<exists>m'. block_min_reduce phase1_cfg one_ref_mem = Inr m'
          \<and> map_sum id fst
                (global_get_nearest_brute_traced phase2_cfg m'
                   (warp_lane phase2_cfg
                      \<lparr>blockIdx_x = 0, blockIdx_y = 0, threadIdx_x = 0, threadIdx_y = 0\<rparr> 5))
              = Inr [Load_block_dist (0, 5), Load_block_idx (0, 5), Warp_min_reduce])"
proof -
  let ?t = "\<lparr>blockIdx_x = 0, blockIdx_y = 0, threadIdx_x = 0, threadIdx_y = 0\<rparr>"
  have s: "shape0 (d_block_dist one_ref_mem) = length (d_obs one_ref_mem)"
      "shape1 (d_block_dist one_ref_mem) = 32"
      "shape0 (d_block_idx one_ref_mem) = length (d_obs one_ref_mem)"
      "shape1 (d_block_idx one_ref_mem) = 32"
      "len (d_out_dist one_ref_mem) = length (d_obs one_ref_mem)"
      "len (d_out_idx one_ref_mem) = length (d_obs one_ref_mem)"
    by (simp_all add: one_ref_mem_def one_obs_def)
  have n: "0 < length (d_obs one_ref_mem)" by (simp add: one_ref_mem_def one_obs_def)
  have t: "?t \<in> set (threads phase2_cfg)"
    by (simp add: set_threads phase2_cfg_def)
  note acc = hard_coded_launch_accesses[OF s]
  have b: "\<forall>i<length (d_obs one_ref_mem). \<forall>c<32.
            \<exists>!t. t \<in> set (threads phase1_cfg)
                 \<and> (\<exists>ws v. block_get_nearest_brute phase1_cfg one_ref_mem t = Inr ws
                           \<and> ((i, c), v) \<in> set ws)"
    using acc by (elim conjE)
  have one: "\<exists>!t. t \<in> set (threads phase1_cfg)
           \<and> (\<exists>ws v. block_get_nearest_brute phase1_cfg one_ref_mem t = Inr ws
                     \<and> ((0, 0), v) \<in> set ws)"
    by (rule b[rule_format, OF n]) simp
  have d: "\<forall>t\<in>set (threads phase2_cfg).
            concat (map (\<lambda>l. global_read_cols phase2_cfg one_ref_mem (warp_lane phase2_cfg t l))
                        [0..<32]) = [0..<32]"
    using acc by (elim conjE)
  have cols: "concat (map (\<lambda>l. global_read_cols phase2_cfg one_ref_mem (warp_lane phase2_cfg ?t l))
                  [0..<32]) = [0..<32]"
    by (rule d[rule_format, OF t])
  have e: "\<forall>t\<in>set (threads phase2_cfg). \<forall>l<32.
            warp_lane phase2_cfg t l \<in> set (threads phase2_cfg)
            \<and> laneid phase2_cfg (warp_lane phase2_cfg t l) = l
            \<and> global_get_nearest_brute_traced phase2_cfg one_ref_mem (warp_lane phase2_cfg t l) =
                Inr (concat (map (\<lambda>i. candidate_loads one_ref_mem (i, l) @ [Warp_min_reduce])
                               (py_range (grid_y phase2_cfg t) (length (d_obs one_ref_mem))
                                  (gridsize_y phase2_cfg))),
                     if l = 0
                     then map (\<lambda>i. (i, warp_min_reduce_idx_unrolled
                                           (\<lambda>c. global_candidate one_ref_mem (i, c)) 0))
                              (py_range (grid_y phase2_cfg t) (length (d_obs one_ref_mem))
                                 (gridsize_y phase2_cfg))
                     else [])"
    using acc by (elim conjE)
  have rows: "py_range (grid_y phase2_cfg ?t) (length (d_obs one_ref_mem)) (gridsize_y phase2_cfg)
                = [0]"
    by (simp add: py_range_def grid_y_def gridsize_y_def phase2_cfg_def one_ref_mem_def one_obs_def)
  have ld: "candidate_loads one_ref_mem (0, 5) = [Load_block_dist (0, 5), Load_block_idx (0, 5)]"
    by (simp add: candidate_loads_def one_ref_mem_def global_seed_def)
  have tr: "global_get_nearest_brute_traced phase2_cfg one_ref_mem (warp_lane phase2_cfg ?t 5)
       = Inr ([Load_block_dist (0, 5), Load_block_idx (0, 5), Warp_min_reduce], [])"
    using e[rule_format, OF t, of 5] unfolding rows by (simp add: ld)
  have "\<exists>m'. block_min_reduce phase1_cfg one_ref_mem = Inr m'
            \<and> (\<forall>t\<in>set (threads phase2_cfg). \<forall>l<32.
                 map_sum id fst
                   (global_get_nearest_brute_traced phase2_cfg m' (warp_lane phase2_cfg t l)) =
                   Inr (concat (map (\<lambda>i. [Load_block_dist (i, l), Load_block_idx (i, l),
                                          Warp_min_reduce])
                                  (py_range (grid_y phase2_cfg t) (length (d_obs one_ref_mem))
                                     (gridsize_y phase2_cfg)))))"
    using acc by (elim conjE)
  then obtain m' where m': "block_min_reduce phase1_cfg one_ref_mem = Inr m'"
      "\<forall>t\<in>set (threads phase2_cfg). \<forall>l<32.
         map_sum id fst
           (global_get_nearest_brute_traced phase2_cfg m' (warp_lane phase2_cfg t l)) =
           Inr (concat (map (\<lambda>i. [Load_block_dist (i, l), Load_block_idx (i, l), Warp_min_reduce])
                          (py_range (grid_y phase2_cfg t) (length (d_obs one_ref_mem))
                             (gridsize_y phase2_cfg))))"
    by blast
  have "map_sum id fst
          (global_get_nearest_brute_traced phase2_cfg m' (warp_lane phase2_cfg ?t 5))
        = Inr [Load_block_dist (0, 5), Load_block_idx (0, 5), Warp_min_reduce]"
    using m'(2)[rule_format, OF t, of 5] unfolding rows by simp
  then have after: "\<exists>m'. block_min_reduce phase1_cfg one_ref_mem = Inr m'
          \<and> map_sum id fst
                (global_get_nearest_brute_traced phase2_cfg m' (warp_lane phase2_cfg ?t 5))
              = Inr [Load_block_dist (0, 5), Load_block_idx (0, 5), Warp_min_reduce]"
    using m'(1) by blast
  show ?thesis
    apply (intro conjI)
    apply (rule s(1))
    apply (rule s(2))
    apply (rule s(3))
    apply (rule s(4))
    apply (rule s(5))
    apply (rule s(6))
    apply (rule n)
    apply (rule one)
    apply (rule t)
    apply (rule cols)
    apply (rule tr)
    apply (rule after)
    done
qed

section \<open>The matrix products\<close>

text \<open>
  Claim C5, evaluated at a block the claim is violated in.  With \<open>TPB = 16\<close>, \<open>A\<close> of
  shape 17 x 16 and \<open>B\<close> of shape 16 x 17, the launch cell starts 2 x 2 blocks.  In block
  (1, 1) the thread at position (16, 16) is inside \<open>C\<close> and runs the chunk with its two
  barriers, while the thread at position (17, 17) of the same block takes the early
  return and reaches no barrier: the block does not pass its barriers as a whole.
\<close>

theorem fast_matmul_early_return:
  "inside_thread \<in> set (block_threads (matmul_cfg 16 corner_A corner_B) 1 1)
   \<and> outside_thread \<in> set (block_threads (matmul_cfg 16 corner_A corner_B) 1 1)
   \<and> fast_matmul_steps 16 (matmul_cfg 16 corner_A corner_B) corner_A (zeros 17 17 :: real array2)
        inside_thread = [Preload 0, Syncthreads, Partial_product 0, Syncthreads, Store_C]
   \<and> fast_matmul_steps 16 (matmul_cfg 16 corner_A corner_B) corner_A (zeros 17 17 :: real array2)
        outside_thread = []
   \<and> fast_matmul_block 16 (matmul_cfg 16 corner_A corner_B) corner_A corner_B (zeros 17 17)
        (\<lambda>p. 0) (1, 1) = Inl BarrierDivergence"
proof -
  let ?cfg = "matmul_cfg 16 corner_A corner_B"
  let ?C = "zeros 17 17 :: real array2"
  have cf: "gridDim_x ?cfg = 2" "gridDim_y ?cfg = 2" "blockDim_x ?cfg = 16" "blockDim_y ?cfg = 16"
    by (simp_all add: matmul_cfg_def corner_A_def corner_B_def zeros_def ceil_div_def)
  have sh: "shape1 corner_A div 16 = 1" "shape0 ?C = 17" "shape1 ?C = 17"
    by (simp_all add: corner_A_def zeros_def)
  have i: "inside_thread \<in> set (block_threads ?cfg 1 1)"
    and out: "outside_thread \<in> set (block_threads ?cfg 1 1)"
    by (simp_all add: set_block_threads cf inside_thread_def outside_thread_def)
  have gi: "grid_x ?cfg inside_thread = 16" "grid_y ?cfg inside_thread = 16"
    and go: "grid_x ?cfg outside_thread = 17" "grid_y ?cfg outside_thread = 17"
    by (simp_all add: grid_x_def grid_y_def cf inside_thread_def outside_thread_def)
  have si: "fast_matmul_steps 16 ?cfg corner_A ?C inside_thread
              = [Preload 0, Syncthreads, Partial_product 0, Syncthreads, Store_C]"
    by (simp add: fast_matmul_steps_def exits_early_def gi sh)
  have so: "fast_matmul_steps 16 ?cfg corner_A ?C outside_thread = []"
    by (simp add: fast_matmul_steps_def exits_early_def go sh)
  have "barriers_reached (fast_matmul_steps 16 ?cfg corner_A ?C inside_thread)
          \<noteq> barriers_reached (fast_matmul_steps 16 ?cfg corner_A ?C outside_thread)"
    unfolding si so by (simp add: barriers_reached_def)
  then have "list_ex (\<lambda>t. list_ex (\<lambda>t'. barriers_reached (fast_matmul_steps 16 ?cfg corner_A ?C t)
                 \<noteq> barriers_reached (fast_matmul_steps 16 ?cfg corner_A ?C t'))
               (block_threads ?cfg 1 1)) (block_threads ?cfg 1 1)"
    unfolding list_ex_iff using i out by blast
  then have "fast_matmul_block 16 ?cfg corner_A corner_B ?C (\<lambda>p. 0) (1, 1) = Inl BarrierDivergence"
    unfolding fast_matmul_block_def Let_def by (simp only: fst_conv snd_conv if_True)
  then show ?thesis using i out si so by simp
qed

text \<open>
  Claim C6 (as amended).  When the three dimensions are multiples of the tile width and
  \<open>C\<close> is not empty, the tiled kernel and the naive kernel, launched as their cells launch
  them, both complete and return the same matrix: every element is the sum of the
  products \<open>A[x,k] * B[k,y]\<close> added up in increasing \<open>k\<close>, whatever the shared tiles held
  before.  No law of arithmetic is used, so the two results agree exactly.
\<close>

theorem tiled_equals_naive:
  fixes A B :: "('a::{zero,plus,times}) array2"
  assumes "0 < TPB" "0 < shape0 A" "0 < shape1 B"
    "TPB dvd shape0 A" "TPB dvd shape1 A" "TPB dvd shape1 B"
    "shape0 B = shape1 A"
  shows "snd (fast_matmul_launch TPB uninit A B) = snd (matmul_launch TPB A B)
         \<and> snd (matmul_launch TPB A B) = Inr (product A B)"
proof -
  have f: "snd (fast_matmul_launch TPB uninit A B) = Inr (product A B)"
    using fast_matmul_launch_result[OF assms(1,2,3,4,6,5,7)] by simp
  have n: "snd (matmul_launch TPB A B) = Inr (product A B)"
    using matmul_launch_result[OF assms(1,2,3)] assms(7) by simp
  show ?thesis using f n by simp
qed

theorem tiled_equals_naive_witness:
  "snd (fast_matmul_launch 2 (\<lambda>p. 7) square_A square_B) = snd (matmul_launch 2 square_A square_B)
   \<and> snd (matmul_launch 2 square_A square_B) = Inr (product square_A square_B)"
proof -
  have a: "(0::nat) < 2" "0 < shape0 square_A" "0 < shape1 square_B"
      "2 dvd shape0 square_A" "2 dvd shape1 square_A" "2 dvd shape1 square_B"
      "shape0 square_B = shape1 square_A"
    by (simp_all add: square_A_def square_B_def)
  show ?thesis by (rule tiled_equals_naive[OF a])
qed

text \<open>
  Claim C6 as stated fails in the degenerate case: with \<open>M = K = N = 0\<close> the launch cell
  asks for a grid of 0 x 0 blocks, and the launch is an error, not an empty matrix.
\<close>

theorem empty_matmul_counterexample:
  "snd (fast_matmul_launch 16 (\<lambda>p. 7) (zeros 0 0) (zeros 0 0 :: real array2)) = Inl LaunchFailure
   \<and> snd (matmul_launch 16 (zeros 0 0) (zeros 0 0 :: real array2)) = Inl LaunchFailure"
  using empty_launch_fails[where ?'a = real] by simp

text \<open>
  Claim C8 (as amended).  The launch cell of the naive kernel compares no dimensions and
  reports no configuration error.  Whenever \<open>C\<close> is not empty and \<open>A\<close> has at most as many
  columns as \<open>B\<close> has rows, equal or not, the kernel is launched and the cell returns the
  matrix whose element \<open>(x, y)\<close> is the sum of \<open>A[x,k] * B[k,y]\<close> over the columns \<open>k\<close> of
  \<open>A\<close>.
\<close>

theorem matmul_launch_unchecked:
  fixes A B :: "('a::{zero,plus,times}) array2"
  assumes "0 < TPB" "0 < shape0 A" "0 < shape1 B" "shape1 A \<le> shape0 B"
  shows "matmul_launch TPB A B =
           ([Launch Matmul (matmul_cfg TPB A B), Synchronize], Inr (product A B))"
  by (rule matmul_launch_result[OF assms])

theorem matmul_launch_unchecked_witness:
  "(0::nat) < 16 \<and> 0 < shape0 narrow_A \<and> 0 < shape1 tall_B
   \<and> shape1 narrow_A \<le> shape0 tall_B \<and> shape1 narrow_A \<noteq> shape0 tall_B
   \<and> matmul_launch 16 narrow_A tall_B =
       ([Launch Matmul (matmul_cfg 16 narrow_A tall_B), Synchronize],
        Inr (product narrow_A tall_B))"
proof -
  have h: "(0::nat) < 16" "0 < shape0 narrow_A" "0 < shape1 tall_B"
      "shape1 narrow_A \<le> shape0 tall_B"
    by (simp_all add: narrow_A_def tall_B_def)
  show ?thesis
    using h matmul_launch_unchecked[OF h] by (simp add: narrow_A_def tall_B_def)
qed

text \<open>
  Claim C8 as stated fails: for \<open>A\<close> of shape 1 x 1 and \<open>B\<close> of shape 2 x 1 the numbers
  of columns of \<open>A\<close> and of rows of \<open>B\<close> differ, and the cell launches the kernel and
  returns the 1 x 1 matrix holding \<open>2 * 3\<close>, not an error.
\<close>

theorem matmul_dimension_mismatch_counterexample:
  "shape1 narrow_A \<noteq> shape0 tall_B
   \<and> matmul_launch 16 narrow_A tall_B =
       ([Launch Matmul \<lparr>gridDim_x = 1, gridDim_y = 1, blockDim_x = 16, blockDim_y = 16\<rparr>,
         Synchronize],
        Inr \<lparr>shape0 = 1, shape1 = 1, cell = (\<lambda>p. if p = (0, 0) then 6 else 0)\<rparr>)"
proof -
  have h: "(0::nat) < 16" "0 < shape0 narrow_A" "0 < shape1 tall_B"
      "shape1 narrow_A \<le> shape0 tall_B"
    by (simp_all add: narrow_A_def tall_B_def)
  have c: "matmul_cfg 16 narrow_A tall_B
             = \<lparr>gridDim_x = 1, gridDim_y = 1, blockDim_x = 16, blockDim_y = 16\<rparr>"
    by (simp add: matmul_cfg_def narrow_A_def tall_B_def ceil_div_def)
  have p: "product narrow_A tall_B
             = \<lparr>shape0 = 1, shape1 = 1, cell = (\<lambda>p. if p = (0, 0) then 6 else 0)\<rparr>"
    by (auto simp: product_def dot_def narrow_A_def tall_B_def fun_eq_iff)
  show ?thesis
    using matmul_launch_result[OF h] by (simp add: c p) (simp add: narrow_A_def tall_B_def)
qed

end
